theory Spec2Isabelle
  imports Complex_Main "HOL-Library.Multiset"
begin

section \<open>The ticker pattern of \<open>scrapeTwitter\<close>\<close>

text \<open>
  \<^verbatim>\<open>const tickerRegex = /\$\w{3,4}/g;\<close>

  A text block is a list of characters. The pattern has no \<open>u\<close> or \<open>i\<close> flag, so
  \<open>\w\<close> is exactly \<open>[A-Za-z0-9_]\<close>; every other character, the sigil included, is
  not a word character. A character beyond ASCII is neither the sigil nor a word
  character, so for the pattern all of them behave alike.
\<close>

definition sigil :: char where
  "sigil = CHR ''$''"

definition is_word :: "char \<Rightarrow> bool" where
  "is_word c =
     (let n = (of_char c :: nat)
      in (48 \<le> n \<and> n \<le> 57) \<or> (65 \<le> n \<and> n \<le> 90) \<or> n = 95 \<or> (97 \<le> n \<and> n \<le> 122))"

text \<open>
  \<open>\w{3,4}\<close> is greedy and nothing follows it in the pattern: at a given position it
  takes the word characters that come next, four of them at most, and the match succeeds
  when it got three at least.
\<close>

definition word_run :: "string \<Rightarrow> string" where
  "word_run cs = take 4 (takeWhile is_word cs)"

text \<open>
  All matches of the global pattern, left to right from index 0: after a match the search
  goes on behind it, after a failure at the next character.
\<close>

fun tickerRegex :: "string \<Rightarrow> string list" where
  "tickerRegex [] = []"
| "tickerRegex (c # cs) =
     (if c = sigil \<and> 3 \<le> length (word_run cs)
      then (c # word_run cs) # tickerRegex (drop (length (word_run cs)) cs)
      else tickerRegex cs)"

text \<open>
  The pattern as the specification words it, for comparison: a match is the sigil followed
  by three or four word characters; the text is scanned from the left, the longer
  candidate is preferred, and the scan goes on behind a match.
\<close>

definition matches_pattern :: "string \<Rightarrow> bool" where
  "matches_pattern m =
     (case m of
        [] \<Rightarrow> False
      | c # w \<Rightarrow> c = sigil \<and> (length w = 3 \<or> length w = 4) \<and> list_all is_word w)"

fun spec_matches :: "string \<Rightarrow> string list" where
  "spec_matches [] = []"
| "spec_matches (c # cs) =
     (if c = sigil \<and> 4 \<le> length cs \<and> list_all is_word (take 4 cs)
      then (c # take 4 cs) # spec_matches (drop 4 cs)
      else if c = sigil \<and> 3 \<le> length cs \<and> list_all is_word (take 3 cs)
      then (c # take 3 cs) # spec_matches (drop 3 cs)
      else spec_matches cs)"

text \<open>
  The pattern object carries \<open>lastIndex\<close>, the one piece of state a global pattern has.
  \<^verbatim>\<open>tweet.match(tickerRegex)\<close> with a global pattern sets \<open>lastIndex\<close> to 0, collects
  every match from there, and leaves \<open>lastIndex\<close> at 0 (the last, failing search resets
  it); it answers \<open>null\<close> (here \<open>None\<close>) when there is no match at all.
\<close>

record regexp =
  lastIndex :: nat

definition new_tickerRegex :: regexp where
  "new_tickerRegex = \<lparr>lastIndex = 0\<rparr>"

definition String_match :: "string \<Rightarrow> regexp \<Rightarrow> string list option \<times> regexp" where
  "String_match tweet rx =
     (let rx0 = rx\<lparr>lastIndex := 0\<rparr>;
          ms = tickerRegex (drop (lastIndex rx0) tweet)
      in (if ms = [] then None else Some ms, rx0))"

section \<open>Count mappings\<close>

text \<open>
  \<^verbatim>\<open>let tickerCounts = {};\<close>

  A plain object with string keys: an association list in insertion order (the order
  \<open>Object.keys\<close> enumerates), without repeated keys. Every key the program stores is a
  match of the pattern and begins with the sigil, so none is a property that a plain
  object inherits. Counts are JavaScript numbers that only ever hold integers here; they
  are modelled as unbounded integers.
\<close>

type_synonym counts = "(string \<times> int) list"

text \<open>\<^verbatim>\<open>obj[k] || 0\<close>: a missing key reads \<open>undefined\<close>, which is falsy, as is 0.\<close>

definition get_or_0 :: "counts \<Rightarrow> string \<Rightarrow> int" where
  "get_or_0 obj k = (case map_of obj k of None \<Rightarrow> 0 | Some v \<Rightarrow> if v = 0 then 0 else v)"

text \<open>\<^verbatim>\<open>obj[k] = v\<close>: an existing key keeps its place, a new key goes last.\<close>

primrec set_prop :: "counts \<Rightarrow> string \<Rightarrow> int \<Rightarrow> counts" where
  "set_prop [] k v = [(k, v)]"
| "set_prop (p # ps) k v = (if fst p = k then (k, v) # ps else p # set_prop ps k v)"

text \<open>\<^verbatim>\<open>tickerCounts[ticker] = (tickerCounts[ticker] || 0) + 1;\<close>\<close>

definition count_ticker :: "counts \<Rightarrow> string \<Rightarrow> counts" where
  "count_ticker tickerCounts ticker =
     set_prop tickerCounts ticker (get_or_0 tickerCounts ticker + 1)"

text \<open>
  \<^verbatim>\<open>
  tweets.forEach(tweet => {
    const matches = tweet.match(tickerRegex);
    if (matches) {
      matches.forEach(ticker => { ... });
    }
  });
  \<close>
  The state of the loop is the object and the pattern.
\<close>

definition count_tweet :: "counts \<times> regexp \<Rightarrow> string \<Rightarrow> counts \<times> regexp" where
  "count_tweet st tweet =
     (case String_match tweet (snd st) of
        (None, rx) \<Rightarrow> (fst st, rx)
      | (Some matches, rx) \<Rightarrow> (foldl count_ticker (fst st) matches, rx))"

definition count_tweets :: "regexp \<Rightarrow> string list \<Rightarrow> counts \<times> regexp" where
  "count_tweets rx tweets = foldl count_tweet ([], rx) tweets"

text \<open>
  The extraction block of \<open>scrapeTwitter\<close>: a fresh pattern and a fresh object at every
  call. \<open>extract_symbols\<close> is the Symbol Extractor on one text block.
\<close>

definition tickerCounts_of :: "string list \<Rightarrow> counts" where
  "tickerCounts_of tweets = fst (count_tweets new_tickerRegex tweets)"

definition extract_symbols :: "string \<Rightarrow> counts" where
  "extract_symbols text = tickerCounts_of [text]"

text \<open>The sum of all counts of an object, and the keys \<open>Object.keys\<close> lists.\<close>

definition total :: "counts \<Rightarrow> int" where
  "total obj = sum_list (map snd obj)"

definition Object_keys :: "counts \<Rightarrow> string list" where
  "Object_keys obj = map fst obj"

section \<open>The renderer and the harvest of one source\<close>

text \<open>
  The browser is outside the program. One session is described by what each call of
  \<open>scrapeTwitter\<close> into it does: whether it throws, and what it returns. The height of
  the page is read once before the loop (reading 0) and once in every cycle (readings
  1, 2, ...); \<open>autoScroll\<close> runs inside the page and is taken as one call, numbered from 0.
  A call that never settles is not described: in this model only the \<open>while\<close> loop can
  run forever.
\<close>

record renderer =
  launch_throws :: bool
  newPage_throws :: bool
  goto_throws :: bool
  scrollHeight :: "nat \<Rightarrow> nat option"
  autoScroll_throws :: "nat \<Rightarrow> bool"
  waitForSelector_throws :: bool
  article_texts :: "string list option"
  close_throws :: bool

datatype error =
    LaunchFailure | NewPageFailure | NavigationFailure | HeightMeasurementFailure
  | ScrollFailure | ReadinessTimeout | ExtractionFailure | CloseFailure

text \<open>
  What a run does to the outside, in order: the calls into the renderer (recorded when
  they are invoked, whether they then throw or not) and the lines written to the console.
\<close>

datatype log_line =
    StartingToScroll string
  | Scrolling nat
  | ReachedEnd string
  | ScrapingAccount string
  | Mentioned string "int option" int
  | AllProcessed
  | ScrapingAgain int

datatype event =
    Launch | NewPage | Goto string | EvalScrollHeight | AutoScroll | WaitFor nat
  | WaitForSelector | Content | Close
  | Log log_line

definition scrollPause :: nat where
  "scrollPause = 3000"

text \<open>
  \<^verbatim>\<open>
  while (!reachedEnd) {
    await autoScroll(page);
    await waitFor(scrollPause);
    let newHeight = await page.evaluate('document.body.scrollHeight');
    if (newHeight === previousHeight) {
      reachedEnd = true;
      console.log(`Reached the end of @${account}'s timeline.`);
    } else {
      previousHeight = newHeight;
      console.log(`Scrolling... Current height: ${newHeight}`);
    }
  }
  \<close>
  \<open>n\<close> counts the cycles done so far (it numbers the calls into the renderer) and \<open>tr\<close>
  is what has happened so far. The loop has no bound: not returning is \<open>None\<close>.
\<close>

partial_function (option) scroll_loop ::
  "renderer \<Rightarrow> string \<Rightarrow> nat \<Rightarrow> nat \<Rightarrow> event list \<Rightarrow> (event list \<times> (error + unit)) option"
where
  "scroll_loop r account n previousHeight tr =
     (if autoScroll_throws r n then Some (tr @ [AutoScroll], Inl ScrollFailure)
      else case scrollHeight r (Suc n) of
        None \<Rightarrow>
          Some (tr @ [AutoScroll, WaitFor scrollPause, EvalScrollHeight],
                Inl HeightMeasurementFailure)
      | Some newHeight \<Rightarrow>
          if newHeight = previousHeight
          then Some (tr @ [AutoScroll, WaitFor scrollPause, EvalScrollHeight,
                           Log (ReachedEnd account)], Inr ())
          else scroll_loop r account (Suc n) newHeight
                 (tr @ [AutoScroll, WaitFor scrollPause, EvalScrollHeight,
                        Log (Scrolling newHeight)]))"

declare scroll_loop.simps [code]

text \<open>
  The Scroll-Completion Detector: the first reading and the loop (lines 35 to 54), on the
  events \<open>tr\<close> that came before.
\<close>

definition scroll_detector ::
  "renderer \<Rightarrow> string \<Rightarrow> event list \<Rightarrow> (event list \<times> (error + unit)) option"
where
  "scroll_detector r account tr =
     (case scrollHeight r 0 of
        None \<Rightarrow>
          Some (tr @ [Log (StartingToScroll account), EvalScrollHeight],
                Inl HeightMeasurementFailure)
      | Some previousHeight \<Rightarrow>
          scroll_loop r account 0 previousHeight
            (tr @ [Log (StartingToScroll account), EvalScrollHeight]))"

text \<open>The number of scroll-and-measure cycles begun, and of \<open>browser.close()\<close> calls.\<close>

definition cycles :: "event list \<Rightarrow> nat" where
  "cycles tr = length (filter (\<lambda>e. e = AutoScroll) tr)"

definition closes :: "event list \<Rightarrow> nat" where
  "closes tr = length (filter (\<lambda>e. e = Close) tr)"

text \<open>
  \<open>scrapeTwitter\<close>, statement by statement. There is no \<open>try\<close> in it: a call that
  throws ends the function there, with the error as its result.
\<close>

definition scrapeTwitter :: "renderer \<Rightarrow> string \<Rightarrow> (event list \<times> (error + counts)) option" where
  "scrapeTwitter r account =
     (if launch_throws r then Some ([Launch], Inl LaunchFailure)
      else if newPage_throws r then Some ([Launch, NewPage], Inl NewPageFailure)
      else if goto_throws r then Some ([Launch, NewPage, Goto account], Inl NavigationFailure)
      else
        (case scroll_detector r account [Launch, NewPage, Goto account] of
           None \<Rightarrow> None
         | Some (tr, Inl e) \<Rightarrow> Some (tr, Inl e)
         | Some (tr, Inr u) \<Rightarrow>
             (if waitForSelector_throws r
              then Some (tr @ [WaitForSelector], Inl ReadinessTimeout)
              else
                (case article_texts r of
                   None \<Rightarrow> Some (tr @ [WaitForSelector, Content], Inl ExtractionFailure)
                 | Some tweets \<Rightarrow>
                     (let tickerCounts = tickerCounts_of tweets
                      in (if close_throws r
                          then Some (tr @ [WaitForSelector, Content, Close], Inl CloseFailure)
                          else Some (tr @ [WaitForSelector, Content, Close],
                                     Inr tickerCounts)))))))"

section \<open>One aggregation run\<close>

text \<open>
  \<^verbatim>\<open>
  Object.keys(results).forEach(ticker => {
    allTickerCounts[ticker] = (allTickerCounts[ticker] || 0) + results[ticker];
  });
  \<close>
  \<open>ticker\<close> is a key of \<open>results\<close>, so \<open>results[ticker]\<close> is always there; the \<open>None\<close>
  branch is never taken.
\<close>

definition merge_ticker :: "counts \<Rightarrow> counts \<Rightarrow> string \<Rightarrow> counts" where
  "merge_ticker results allTickerCounts ticker =
     (case map_of results ticker of
        Some n \<Rightarrow> set_prop allTickerCounts ticker (get_or_0 allTickerCounts ticker + n)
      | None \<Rightarrow> allTickerCounts)"

definition merge_results :: "counts \<Rightarrow> counts \<Rightarrow> counts" where
  "merge_results allTickerCounts results =
     foldl (merge_ticker results) allTickerCounts (Object_keys results)"

text \<open>The tally after a list of per-source results, from the empty object.\<close>

definition merge_all :: "counts list \<Rightarrow> counts" where
  "merge_all rs = foldl merge_results [] rs"

text \<open>
  \<^verbatim>\<open>
  for (const account of accounts) {
    console.log(`Scraping account @${account}...`);
    const results = await scrapeTwitter(account);
    Object.keys(results).forEach(...);
  }
  \<close>
  \<open>w account\<close> is the session that the harvest of \<open>account\<close> meets in this run. An error
  of \<open>scrapeTwitter\<close> is not caught: it leaves the loop.
\<close>

fun harvest_all ::
  "(string \<Rightarrow> renderer) \<Rightarrow> string list \<Rightarrow> counts \<Rightarrow> event list
    \<Rightarrow> (event list \<times> (error + counts)) option"
where
  "harvest_all w [] allTickerCounts tr = Some (tr, Inr allTickerCounts)"
| "harvest_all w (account # rest) allTickerCounts tr =
     (case scrapeTwitter (w account) account of
        None \<Rightarrow> None
      | Some (tr', Inl e) \<Rightarrow> Some (tr @ [Log (ScrapingAccount account)] @ tr', Inl e)
      | Some (tr', Inr results) \<Rightarrow>
          harvest_all w rest (merge_results allTickerCounts results)
            (tr @ [Log (ScrapingAccount account)] @ tr'))"

text \<open>That the harvest of \<open>account\<close> in the world \<open>w\<close> returns \<open>results\<close>.\<close>

definition harvest_gives :: "(string \<Rightarrow> renderer) \<Rightarrow> string \<Rightarrow> counts \<Rightarrow> bool" where
  "harvest_gives w account results \<longleftrightarrow>
     (\<exists>tr. scrapeTwitter (w account) account = Some (tr, Inr results))"

text \<open>
  \<^verbatim>\<open>Math.round((currentTime - startTime) / 1000 / 60)\<close>

  Times are milliseconds since the epoch, integers. \<open>Math.round\<close> rounds to the nearest
  integer, a half upwards. The quotient is taken as a rational number: a difference of
  two dates is far below \<open>2^53\<close>, where the two floating-point divisions do not move a
  value across a half.
\<close>

definition Math_round :: "rat \<Rightarrow> int" where
  "Math_round x = \<lfloor>x + 1 / 2\<rfloor>"

definition elapsedMinutes :: "int \<Rightarrow> int \<Rightarrow> int" where
  "elapsedMinutes startTime currentTime =
     Math_round (of_int (currentTime - startTime) / 1000 / 60)"

text \<open>
  \<open>scrapeAndPrint\<close>: the tally starts as the empty object at every call; \<open>startTime\<close>
  is the constant of \<open>main\<close> that the function closes over, \<open>currentTime\<close> the clock
  when the loop over the accounts is done.
\<close>

definition report_lines :: "counts \<Rightarrow> int \<Rightarrow> event list" where
  "report_lines allTickerCounts minutes =
     map (\<lambda>ticker. Log (Mentioned ticker (map_of allTickerCounts ticker) minutes))
       (Object_keys allTickerCounts)"

definition scrapeAndPrint ::
  "(string \<Rightarrow> renderer) \<Rightarrow> string list \<Rightarrow> int \<Rightarrow> int \<Rightarrow> (event list \<times> (error + unit)) option"
where
  "scrapeAndPrint w accounts startTime currentTime =
     (case harvest_all w accounts [] [] of
        None \<Rightarrow> None
      | Some (tr, Inl e) \<Rightarrow> Some (tr, Inl e)
      | Some (tr, Inr allTickerCounts) \<Rightarrow>
          Some (tr @ report_lines allTickerCounts (elapsedMinutes startTime currentTime)
                   @ [Log AllProcessed], Inr ()))"

definition is_report :: "event \<Rightarrow> bool" where
  "is_report e = (case e of Log (Mentioned _ _ _) \<Rightarrow> True | _ \<Rightarrow> False)"

text \<open>The accounts a run has begun to harvest, in order, read off its events.\<close>

definition harvested :: "event list \<Rightarrow> string list" where
  "harvested tr = concat (map (\<lambda>e. case e of Log (ScrapingAccount a) \<Rightarrow> [a] | _ \<Rightarrow> []) tr)"

text \<open>
  A stretch of events without a line of the scheduler: no account begun, no report line,
  no closing line.
\<close>

definition quiet :: "event list \<Rightarrow> bool" where
  "quiet ext \<longleftrightarrow>
     harvested ext = [] \<and> filter is_report ext = [] \<and> Log AllProcessed \<notin> set ext"

section \<open>The process: \<open>main\<close>\<close>

text \<open>
  \<^verbatim>\<open>
  const interval = 15 * 60 * 1000;
  const startTime = new Date();
  await scrapeAndPrint();
  setInterval(async () => {
    console.log(...);
    await scrapeAndPrint();
  }, interval);
  \<close>
\<close>

definition accounts :: "string list" where
  "accounts =
     [''Mr_Derivatives'', ''warrior_0719'', ''ChartingProdigy'',
      ''allstarcharts'', ''yuriymatso'', ''TriggerTrades'',
      ''AdamMancini4'', ''CordovaTrades'', ''Barchart'', ''RoyLMattox'']"

definition interval :: int where
  "interval = 15 * 60 * 1000"

text \<open>
  One run of \<open>scrapeAndPrint\<close> as the process sees it: when it began, when its loop over
  the accounts was over (the clock reading of its report, or the moment it threw), and
  what it did. Times are milliseconds.
\<close>

record run =
  run_begin :: int
  run_report :: int
  run_outcome :: "(event list \<times> (error + unit)) option"

text \<open>
  The callback of the timer, called at \<open>currentTime - d k\<close> for run \<open>k\<close>: it prints the
  length of the interval and awaits \<open>scrapeAndPrint\<close>, which still closes over the
  \<open>startTime\<close> of \<open>main\<close>.
\<close>

definition timer_callback ::
  "(nat \<Rightarrow> string \<Rightarrow> renderer) \<Rightarrow> int \<Rightarrow> nat \<Rightarrow> int \<Rightarrow> (event list \<times> (error + unit)) option"
where
  "timer_callback w startTime k currentTime =
     (case scrapeAndPrint (w k) accounts startTime currentTime of
        None \<Rightarrow> None
      | Some (tr, res) \<Rightarrow> Some (Log (ScrapingAgain (interval div 1000 div 60)) # tr, res))"

text \<open>
  A run resolves when \<open>scrapeAndPrint\<close> returns, and rejects when it throws. Nothing in
  the program handles a rejection: the rejected promise of \<open>main\<close>, or of a callback of
  the timer, ends the process. \<open>ends\<close> is the time at which the process ends by a run
  begun so far, if one of them rejects.
\<close>

definition resolves :: "(event list \<times> (error + unit)) option \<Rightarrow> bool" where
  "resolves out = (case out of Some (tr, Inr u) \<Rightarrow> True | _ \<Rightarrow> False)"

definition rejects :: "(event list \<times> (error + unit)) option \<Rightarrow> bool" where
  "rejects out = (case out of Some (tr, Inl e) \<Rightarrow> True | _ \<Rightarrow> False)"

definition process_ended :: "int option \<Rightarrow> int \<Rightarrow> bool" where
  "process_ended ends t = (case ends of None \<Rightarrow> False | Some e \<Rightarrow> e \<le> t)"

definition ends_after :: "int option \<Rightarrow> (event list \<times> (error + unit)) option \<Rightarrow> int \<Rightarrow> int option" where
  "ends_after ends out t =
     (if rejects out then (case ends of None \<Rightarrow> Some t | Some e \<Rightarrow> Some (min e t))
      else ends)"

text \<open>
  The timer \<open>setInterval\<close> arms. The runtime calls the callback when the timer is due and
  re-arms it one interval after that call; the callback is \<open>async\<close>, and the timer does
  not wait for the promise it returns, so a run may still be going on when the next one
  begins. The timer is due at \<open>t\<close> and begins run \<open>k\<close> there, unless the process has
  ended by then; \<open>d k\<close> is the time run \<open>k\<close> takes from its beginning until it reports
  or throws. The process has no end of its own: \<open>n\<close> is the number of times the timer is
  looked at.
\<close>

fun timer_runs ::
  "(nat \<Rightarrow> string \<Rightarrow> renderer) \<Rightarrow> int \<Rightarrow> (nat \<Rightarrow> nat) \<Rightarrow> nat \<Rightarrow> nat \<Rightarrow> int \<Rightarrow> int option
    \<Rightarrow> run list"
where
  "timer_runs w startTime d 0 k t ends = []"
| "timer_runs w startTime d (Suc n) k t ends =
     (if process_ended ends t then []
      else
        (let out = timer_callback w startTime k (t + int (d k))
         in \<lparr>run_begin = t, run_report = t + int (d k), run_outcome = out\<rparr>
            # timer_runs w startTime d n (Suc k) (t + interval)
                (ends_after ends out (t + int (d k)))))"

text \<open>
  \<open>main\<close>: it reads \<open>startTime\<close>, awaits run 0, and only when that has resolved arms the
  timer, at the time run 0 was over. The result is the runs of the process, in the order
  they begin, up to the \<open>n\<close>-th time the timer is due.
\<close>

definition main :: "(nat \<Rightarrow> string \<Rightarrow> renderer) \<Rightarrow> int \<Rightarrow> (nat \<Rightarrow> nat) \<Rightarrow> nat \<Rightarrow> run list" where
  "main w startTime d n =
     (let out = scrapeAndPrint (w 0) accounts startTime (startTime + int (d 0))
      in \<lparr>run_begin = startTime, run_report = startTime + int (d 0), run_outcome = out\<rparr>
         # (if resolves out
            then timer_runs w startTime d n 1 (startTime + int (d 0) + interval) None
            else []))"

text \<open>The minutes in the report lines of a run.\<close>

definition reported_minutes :: "event list \<Rightarrow> int list" where
  "reported_minutes tr =
     concat (map (\<lambda>e. case e of Log (Mentioned t c m) \<Rightarrow> [m] | _ \<Rightarrow> []) tr)"

section \<open>Sample inputs\<close>

text \<open>
  A simulated session: the height readings are the given list (a reading beyond the list
  throws), the articles are the given texts, and no other call throws.
\<close>

definition simulated :: "nat list \<Rightarrow> string list \<Rightarrow> renderer" where
  "simulated hs tweets =
     \<lparr>launch_throws = False, newPage_throws = False, goto_throws = False,
      scrollHeight = (\<lambda>k. if k < length hs then Some (hs ! k) else None),
      autoScroll_throws = (\<lambda>k. False),
      waitForSelector_throws = False,
      article_texts = Some tweets,
      close_throws = False\<rparr>"

definition unreachable :: renderer where
  "unreachable = (simulated [500, 1200, 1200] [])\<lparr>goto_throws := True\<rparr>"

definition sample_world :: "string \<Rightarrow> renderer" where
  "sample_world account =
     (if account = ''warrior_0719'' then unreachable
      else simulated [500, 1200, 1200] [''$AAPL up, $AAPL again, $TSLA''])"

definition sample_worlds :: "nat \<Rightarrow> string \<Rightarrow> renderer" where
  "sample_worlds k account = simulated [800, 800] [''$GME'']"

definition minute_runs :: "nat \<Rightarrow> nat" where
  "minute_runs k = 60000"

text \<open>
  A process whose second run meets the unreachable source, with runs after the first
  that take longer than the interval.
\<close>

definition failing_worlds :: "nat \<Rightarrow> string \<Rightarrow> renderer" where
  "failing_worlds k = (if k = 1 then sample_world else sample_worlds k)"

definition long_runs :: "nat \<Rightarrow> nat" where
  "long_runs k = (if k = 0 then 60000 else 1000000)"

text \<open>A process whose every run, the first included, meets the unreachable source.\<close>

definition unreachable_worlds :: "nat \<Rightarrow> string \<Rightarrow> renderer" where
  "unreachable_worlds k = sample_world"

section \<open>The pattern and its matches\<close>

lemma not_word_sigil: "\<not> is_word sigil"
  by (simp add: is_word_def sigil_def)

lemma takeWhile_ge_iff:
  "n \<le> length (takeWhile P xs) \<longleftrightarrow> n \<le> length xs \<and> list_all P (take n xs)"
proof (induction xs arbitrary: n)
  case Nil
  then show ?case by simp
next
  case (Cons x xs)
  then show ?case by (cases n) auto
qed

lemma take_takeWhile:
  "n \<le> length (takeWhile P xs) \<Longrightarrow> take n (takeWhile P xs) = take n xs"
proof (induction xs arbitrary: n)
  case Nil
  then show ?case by simp
next
  case (Cons x xs)
  then show ?case by (cases n) (auto split: if_splits)
qed

lemma word_run_long: "4 \<le> length (takeWhile is_word cs) \<Longrightarrow> word_run cs = take 4 cs"
  by (simp add: word_run_def take_takeWhile)

lemma word_run_short:
  assumes "3 \<le> length (takeWhile is_word cs)" and "\<not> 4 \<le> length (takeWhile is_word cs)"
  shows "word_run cs = take 3 cs"
proof -
  from assms have "length (takeWhile is_word cs) = 3" by simp
  then have "word_run cs = take 3 (takeWhile is_word cs)" by (simp add: word_run_def)
  with assms(1) show ?thesis by (simp add: take_takeWhile)
qed

lemma length_word_run: "length (word_run cs) = min 4 (length (takeWhile is_word cs))"
  by (simp add: word_run_def min.commute)

lemma tickerRegex_spec: "tickerRegex s = spec_matches s"
proof (induction s rule: tickerRegex.induct)
  case 1
  then show ?case by simp
next
  case (2 c cs)
  show ?case
  proof (cases "c = sigil \<and> 3 \<le> length (word_run cs)")
    case False
    then have "\<not> 3 \<le> length (takeWhile is_word cs)" if "c = sigil"
      using that by (simp add: length_word_run)
    then have "\<not> 3 \<le> length (takeWhile is_word cs) \<and> \<not> 4 \<le> length (takeWhile is_word cs)"
      if "c = sigil"
      using that by simp
    then have "\<not> (3 \<le> length cs \<and> list_all is_word (take 3 cs))"
       and "\<not> (4 \<le> length cs \<and> list_all is_word (take 4 cs))" if "c = sigil"
      using that by (simp_all only: takeWhile_ge_iff [of _ is_word cs, symmetric] not_False_eq_True)
    with False 2 show ?thesis by auto
  next
    case True
    then have c: "c = sigil" and tw: "3 \<le> length (takeWhile is_word cs)"
      by (simp_all add: length_word_run)
    show ?thesis
    proof (cases "4 \<le> length (takeWhile is_word cs)")
      case long: True
      then have wr: "word_run cs = take 4 cs" by (rule word_run_long)
      from long have "4 \<le> length cs \<and> list_all is_word (take 4 cs)"
        by (simp add: takeWhile_ge_iff [of _ is_word cs])
      with True 2 wr c show ?thesis by (simp add: min_def)
    next
      case short: False
      with tw have wr: "word_run cs = take 3 cs" by (rule word_run_short)
      from tw have three: "3 \<le> length cs \<and> list_all is_word (take 3 cs)"
        by (simp add: takeWhile_ge_iff [of _ is_word cs])
      from short have "\<not> (4 \<le> length cs \<and> list_all is_word (take 4 cs))"
        by (simp add: takeWhile_ge_iff [of _ is_word cs])
      with True 2 wr c three show ?thesis by (auto simp add: min_def)
    qed
  qed
qed

lemma tickerRegex_words: "list_all is_word ws \<Longrightarrow> tickerRegex (ws @ rest) = tickerRegex rest"
proof (induction ws)
  case Nil
  then show ?case by simp
next
  case (Cons w ws)
  then have "w \<noteq> sigil" using not_word_sigil by auto
  with Cons show ?case by simp
qed

lemma word_run_tail: "word_run (cs @ sigil # ys) = word_run cs"
  by (simp add: word_run_def takeWhile_tail not_word_sigil)

lemma length_word_run_le: "length (word_run cs) \<le> length cs"
  by (simp add: word_run_def length_takeWhile_le min.coboundedI1)

lemma tickerRegex_append_sigil:
  "tickerRegex (pre @ sigil # ys) = tickerRegex pre @ tickerRegex (sigil # ys)"
proof (induction pre rule: tickerRegex.induct)
  case 1
  then show ?case by simp
next
  case (2 c cs)
  show ?case
  proof (cases "c = sigil \<and> 3 \<le> length (word_run cs)")
    case True
    have "drop (length (word_run cs)) (cs @ sigil # ys)
          = drop (length (word_run cs)) cs @ sigil # ys"
      using length_word_run_le [of cs] by simp
    with True 2 show ?thesis by (simp add: word_run_tail)
  next
    case False
    with 2 show ?thesis by (auto simp: word_run_tail)
  qed
qed

lemma takeWhile_run:
  assumes "list_all is_word ws" and "rest = [] \<or> \<not> is_word (hd rest)"
  shows "takeWhile is_word (ws @ rest) = ws"
proof -
  from assms(2) have "takeWhile is_word rest = []" by (cases rest) auto
  with assms(1) show ?thesis by (simp add: list_all_iff)
qed

lemma tickerRegex_run:
  assumes "list_all is_word ws" and "3 \<le> length ws" and "rest = [] \<or> \<not> is_word (hd rest)"
  shows "tickerRegex (sigil # ws @ rest) = (sigil # take 4 ws) # tickerRegex rest"
proof -
  have wr: "word_run (ws @ rest) = take 4 ws"
    using assms(1,3) by (simp add: word_run_def takeWhile_run)
  have "drop (length (take 4 ws)) (ws @ rest) = drop 4 ws @ rest"
    by (simp add: min_def)
  moreover have "list_all is_word (drop 4 ws)"
    using assms(1) by (auto simp: list_all_iff dest: in_set_dropD)
  ultimately have "tickerRegex (drop (length (take 4 ws)) (ws @ rest)) = tickerRegex rest"
    by (simp add: tickerRegex_words)
  with wr assms(2) show ?thesis by simp
qed

lemma matches_pattern_word_run:
  "3 \<le> length (word_run cs) \<Longrightarrow> matches_pattern (sigil # word_run cs)"
proof -
  assume a: "3 \<le> length (word_run cs)"
  have "length (word_run cs) \<le> 4" by (simp add: word_run_def)
  with a have "length (word_run cs) = 3 \<or> length (word_run cs) = 4" by arith
  moreover have "list_all is_word (word_run cs)"
    unfolding word_run_def list_all_iff by (meson in_set_takeD set_takeWhileD)
  ultimately show ?thesis by (simp add: matches_pattern_def)
qed

lemma tickerRegex_matches: "m \<in> set (tickerRegex s) \<Longrightarrow> matches_pattern m"
proof (induction s rule: tickerRegex.induct)
  case 1
  then show ?case by simp
next
  case (2 c cs)
  then show ?case
    by (auto simp: matches_pattern_word_run split: if_splits)
qed

section \<open>Objects and counting\<close>

lemma get_or_0_alt: "get_or_0 obj k = (case map_of obj k of None \<Rightarrow> 0 | Some v \<Rightarrow> v)"
  by (simp add: get_or_0_def split: option.splits)

lemma map_of_set_prop: "map_of (set_prop obj k v) = (map_of obj)(k \<mapsto> v)"
  by (induction obj) auto

lemma keys_set_prop:
  "Object_keys (set_prop obj k v)
   = (if k \<in> set (Object_keys obj) then Object_keys obj else Object_keys obj @ [k])"
  unfolding Object_keys_def by (induction obj) auto

lemma distinct_set_prop:
  "distinct (Object_keys obj) \<Longrightarrow> distinct (Object_keys (set_prop obj k v))"
  by (simp add: keys_set_prop)

lemma total_set_prop: "total (set_prop obj k v) = total obj - get_or_0 obj k + v"
  unfolding total_def get_or_0_alt by (induction obj) auto

lemma get_set_prop: "get_or_0 (set_prop obj k v) k' = (if k' = k then v else get_or_0 obj k')"
  by (simp add: get_or_0_alt map_of_set_prop)

lemma total_count_ticker: "total (count_ticker obj t) = total obj + 1"
  by (simp add: count_ticker_def total_set_prop)

lemma total_count_tickers: "total (foldl count_ticker obj ms) = total obj + int (length ms)"
  by (induction ms arbitrary: obj) (simp_all add: total_count_ticker)

lemma get_count_ticker:
  "get_or_0 (count_ticker obj t) k = get_or_0 obj k + (if k = t then 1 else 0)"
  by (simp add: count_ticker_def get_set_prop)

lemma get_count_tickers:
  "get_or_0 (foldl count_ticker obj ms) k = get_or_0 obj k + int (count_list ms k)"
  by (induction ms arbitrary: obj) (simp_all add: get_count_ticker)

lemma keys_count_tickers:
  "set (Object_keys (foldl count_ticker obj ms)) = set (Object_keys obj) \<union> set ms"
  by (induction ms arbitrary: obj) (auto simp: count_ticker_def keys_set_prop split: if_splits)

lemma distinct_count_tickers:
  "distinct (Object_keys obj) \<Longrightarrow> distinct (Object_keys (foldl count_ticker obj ms))"
  by (induction ms arbitrary: obj) (simp_all add: count_ticker_def distinct_set_prop)

lemma count_tweets_fold:
  "foldl count_tweet (obj, rx) tweets
   = (foldl count_ticker obj (concat (map tickerRegex tweets)),
      if tweets = [] then rx else rx\<lparr>lastIndex := 0\<rparr>)"
proof (induction tweets arbitrary: obj rx)
  case Nil
  then show ?case by simp
next
  case (Cons t ts)
  have "count_tweet (obj, rx) t = (foldl count_ticker obj (tickerRegex t), rx\<lparr>lastIndex := 0\<rparr>)"
    by (simp add: count_tweet_def String_match_def Let_def)
  with Cons show ?case by simp
qed

lemma tickerCounts_of_fold:
  "tickerCounts_of tweets = foldl count_ticker [] (concat (map tickerRegex tweets))"
  by (simp add: tickerCounts_of_def count_tweets_def count_tweets_fold)

lemma extract_symbols_fold: "extract_symbols s = foldl count_ticker [] (tickerRegex s)"
  by (simp add: extract_symbols_def tickerCounts_of_fold)

lemma values_positive:
  assumes "\<forall>(k, v) \<in> set obj. 1 \<le> v" and "distinct (Object_keys obj)"
  shows "\<forall>(k, v) \<in> set (foldl count_ticker obj ms). 1 \<le> v"
  using assms
proof (induction ms arbitrary: obj)
  case Nil
  then show ?case by simp
next
  case (Cons m ms)
  have "\<forall>(k, v) \<in> set (count_ticker obj m). 1 \<le> v"
  proof clarify
    fix k v assume kv: "(k, v) \<in> set (count_ticker obj m)"
    have d: "distinct (map fst (count_ticker obj m))"
      using Cons.prems(2) by (simp add: count_ticker_def distinct_set_prop [unfolded Object_keys_def] Object_keys_def)
    with kv have "map_of (count_ticker obj m) k = Some v" by simp
    then have v: "get_or_0 (count_ticker obj m) k = v" by (simp add: get_or_0_alt)
    have "0 \<le> get_or_0 obj k"
    proof (cases "map_of obj k")
      case None
      then show ?thesis by (simp add: get_or_0_alt)
    next
      case (Some u)
      then have "(k, u) \<in> set obj" by (rule map_of_SomeD)
      with Cons.prems(1) have "1 \<le> u" by auto
      with Some show ?thesis by (simp add: get_or_0_alt)
    qed
    moreover have "map_of obj k = Some v" if "k \<noteq> m"
      using that kv \<open>map_of (count_ticker obj m) k = Some v\<close>
      by (simp add: count_ticker_def map_of_set_prop)
    ultimately show "1 \<le> v"
      using v Cons.prems(1) by (cases "k = m") (auto simp: get_count_ticker dest!: map_of_SomeD)
  qed
  moreover have "distinct (Object_keys (count_ticker obj m))"
    using Cons.prems(2) by (simp add: count_ticker_def distinct_set_prop)
  ultimately show ?case using Cons.IH by simp
qed

section \<open>The extractor\<close>

lemma total_Nil: "total [] = 0"
  by (simp add: total_def)

lemma get_or_0_Nil: "get_or_0 [] k = 0"
  by (simp add: get_or_0_def)

lemma count_tweets_eq:
  "count_tweets rx tweets
   = (foldl count_ticker [] (concat (map tickerRegex tweets)),
      if tweets = [] then rx else rx\<lparr>lastIndex := 0\<rparr>)"
  unfolding count_tweets_def by (rule count_tweets_fold)

text \<open>
  Claim C4. For every text block, the counts of the extracted mapping add up to the number
  of matches that the pattern, evaluated as the specification words it, finds from left
  to right without overlap, and every occurrence of a symbol adds one to that symbol's
  count. Extracting \<open>$AAPL up, $AAPL again, $TSLA\<close> gives \<open>$AAPL\<close> twice and
  \<open>$TSLA\<close> once, and a text without a match gives the empty mapping.
\<close>

theorem extractor_counts_matches:
  "total (extract_symbols s) = int (length (spec_matches s))
   \<and> (\<forall>k. get_or_0 (extract_symbols s) k = int (count_list (spec_matches s) k))
   \<and> extract_symbols ''$AAPL up, $AAPL again, $TSLA'' = [(''$AAPL'', 2), (''$TSLA'', 1)]
   \<and> (spec_matches s = [] \<longrightarrow> extract_symbols s = [])"
proof (intro conjI allI impI)
  show "total (extract_symbols s) = int (length (spec_matches s))"
    by (simp add: extract_symbols_fold total_count_tickers tickerRegex_spec total_Nil)
  show "get_or_0 (extract_symbols s) k = int (count_list (spec_matches s) k)" for k
    by (simp add: extract_symbols_fold get_count_tickers tickerRegex_spec get_or_0_Nil)
  show "extract_symbols ''$AAPL up, $AAPL again, $TSLA'' = [(''$AAPL'', 2), (''$TSLA'', 1)]"
    by code_simp
  show "extract_symbols s = []" if "spec_matches s = []"
    using that by (simp add: extract_symbols_fold tickerRegex_spec)
qed

theorem extractor_counts_matches_witness:
  "spec_matches ''no symbols: $ or $AB'' = []
   \<and> extract_symbols ''no symbols: $ or $AB'' = []"
proof -
  have h: "spec_matches ''no symbols: $ or $AB'' = []" by code_simp
  show ?thesis
    using h extractor_counts_matches [of "''no symbols: $ or $AB''"]
    by simp
qed

text \<open>
  Claim C9. The extractor is a function of the text alone. In whatever state an earlier
  use left the pattern object, the mapping is the one a fresh extraction gives; running
  the extraction a second time, on the state the first run left behind, gives the same
  mapping again; and the result is always a mapping, there is no failing case.
\<close>

theorem extractor_pure:
  "fst (count_tweets rx tweets) = tickerCounts_of tweets
   \<and> fst (count_tweets (snd (count_tweets rx tweets)) tweets) = fst (count_tweets rx tweets)
   \<and> fst (count_tweets rx [s]) = extract_symbols s"
  by (simp add: count_tweets_eq tickerCounts_of_fold extract_symbols_fold)

lemma keys_Nil: "Object_keys [] = []"
  by (simp add: Object_keys_def)

lemma tickerRegex_sigil_run:
  assumes "list_all is_word ws" and "3 \<le> length ws" and "rest = [] \<or> \<not> is_word (hd rest)"
  shows "tickerRegex (pre @ sigil # ws @ rest)
         = tickerRegex pre @ [sigil # take (min (length ws) 4) ws] @ tickerRegex rest"
proof -
  have "take (min (length ws) 4) ws = take 4 ws" by (simp add: min_def)
  moreover have "tickerRegex (sigil # ws @ rest) = (sigil # take 4 ws) # tickerRegex rest"
    using assms by (rule tickerRegex_run)
  ultimately show ?thesis
    by (simp only: tickerRegex_append_sigil append_Cons append_Nil)
qed

lemma tickerCounts_of_entries:
  assumes kv: "(k, v) \<in> set (tickerCounts_of tweets)"
  shows "matches_pattern k \<and> 1 \<le> v"
proof -
  from kv have "k \<in> set (Object_keys (tickerCounts_of tweets))"
    by (force simp: Object_keys_def)
  then have "k \<in> set (concat (map tickerRegex tweets))"
    by (simp add: tickerCounts_of_fold keys_count_tickers keys_Nil)
  then obtain t where "k \<in> set (tickerRegex t)" by auto
  then have "matches_pattern k" by (rule tickerRegex_matches)
  moreover have "\<forall>(k, v) \<in> set (tickerCounts_of tweets). 1 \<le> v"
    unfolding tickerCounts_of_fold by (rule values_positive) (simp_all add: Object_keys_def)
  with kv have "1 \<le> v" by auto
  ultimately show ?thesis by simp
qed

lemma get_extract_symbols:
  "get_or_0 (extract_symbols s) k = int (count_list (tickerRegex s) k)"
  by (simp add: extract_symbols_fold get_count_tickers get_or_0_Nil)

lemma get_extract_symbols_run:
  assumes "list_all is_word ws" and "3 \<le> length ws" and "rest = [] \<or> \<not> is_word (hd rest)"
  shows "get_or_0 (extract_symbols (pre @ sigil # ws @ rest)) k
         = get_or_0 (extract_symbols pre) k
           + (if k = sigil # take (min (length ws) 4) ws then 1 else 0)
           + get_or_0 (extract_symbols rest) k"
proof -
  have "tickerRegex (pre @ sigil # ws @ rest)
        = tickerRegex pre @ [sigil # take (min (length ws) 4) ws] @ tickerRegex rest"
    using assms by (rule tickerRegex_sigil_run)
  then show ?thesis
    by (simp only: get_extract_symbols) auto
qed

lemma tickerCounts_of_keys:
  "set (Object_keys (tickerCounts_of tweets)) = set (concat (map tickerRegex tweets))"
  by (simp add: tickerCounts_of_fold keys_count_tickers keys_Nil)

lemma tickerCounts_of_entry_count:
  assumes kv: "(k, v) \<in> set (tickerCounts_of tweets)"
  shows "v = int (count_list (concat (map tickerRegex tweets)) k)"
proof -
  have "distinct (Object_keys (tickerCounts_of tweets))"
    unfolding tickerCounts_of_fold by (rule distinct_count_tickers) (simp add: keys_Nil)
  with kv have "map_of (tickerCounts_of tweets) k = Some v" by (simp add: Object_keys_def)
  then have "get_or_0 (tickerCounts_of tweets) k = v" by (simp add: get_or_0_alt)
  then show ?thesis
    by (simp add: tickerCounts_of_fold get_count_tickers get_or_0_Nil)
qed

text \<open>
  Claim C10. The pattern has no boundary behind it. A sigil followed by a maximal run of
  \<open>k \<ge> 3\<close> word characters gives exactly one match, the sigil and the first
  \<open>min k 4\<close> characters of the run, whatever stands before the sigil, and the extractor
  records it: in the mapping of the whole text the count of that symbol is one more than
  the counts in the text before and the text behind together, and no other count changes.
  \<open>$ABCDE\<close> gives \<open>$ABCD\<close> once, and three times when it stands three times. The keys
  of a produced mapping are exactly the matches; every key is the sigil followed by three
  or four word characters, and its count is the number of its matches, at least 1.
\<close>

theorem no_trailing_boundary:
  "(\<forall>pre ws rest.
      list_all is_word ws \<and> 3 \<le> length ws \<and> (rest = [] \<or> \<not> is_word (hd rest)) \<longrightarrow>
      tickerRegex (pre @ sigil # ws @ rest)
      = tickerRegex pre @ [sigil # take (min (length ws) 4) ws] @ tickerRegex rest)
   \<and> (\<forall>pre ws rest k.
      list_all is_word ws \<and> 3 \<le> length ws \<and> (rest = [] \<or> \<not> is_word (hd rest)) \<longrightarrow>
      get_or_0 (extract_symbols (pre @ sigil # ws @ rest)) k
      = get_or_0 (extract_symbols pre) k
        + (if k = sigil # take (min (length ws) 4) ws then 1 else 0)
        + get_or_0 (extract_symbols rest) k)
   \<and> extract_symbols ''$ABCDE'' = [(''$ABCD'', 1)]
   \<and> extract_symbols ''$ABCDE $ABCDE $ABCDE'' = [(''$ABCD'', 3)]
   \<and> set (Object_keys (tickerCounts_of tweets)) = set (concat (map tickerRegex tweets))
   \<and> (\<forall>(k, v) \<in> set (tickerCounts_of tweets).
         matches_pattern k \<and> 1 \<le> v
         \<and> v = int (count_list (concat (map tickerRegex tweets)) k))"
proof (intro conjI allI impI ballI)
  show "tickerRegex (pre @ sigil # ws @ rest)
        = tickerRegex pre @ [sigil # take (min (length ws) 4) ws] @ tickerRegex rest"
    if "list_all is_word ws \<and> 3 \<le> length ws \<and> (rest = [] \<or> \<not> is_word (hd rest))"
    for pre ws rest
    using that by (intro tickerRegex_sigil_run) simp_all
  show "get_or_0 (extract_symbols (pre @ sigil # ws @ rest)) k
      = get_or_0 (extract_symbols pre) k
        + (if k = sigil # take (min (length ws) 4) ws then 1 else 0)
        + get_or_0 (extract_symbols rest) k"
    if "list_all is_word ws \<and> 3 \<le> length ws \<and> (rest = [] \<or> \<not> is_word (hd rest))"
    for pre ws rest k
    using that by (intro get_extract_symbols_run) simp_all
  show "extract_symbols ''$ABCDE'' = [(''$ABCD'', 1)]"
    by code_simp
  show "extract_symbols ''$ABCDE $ABCDE $ABCDE'' = [(''$ABCD'', 3)]"
    by code_simp
  show "set (Object_keys (tickerCounts_of tweets)) = set (concat (map tickerRegex tweets))"
    by (rule tickerCounts_of_keys)
  show "case x of (k, v) \<Rightarrow> matches_pattern k \<and> 1 \<le> v
         \<and> v = int (count_list (concat (map tickerRegex tweets)) k)"
    if "x \<in> set (tickerCounts_of tweets)" for x
  proof -
    obtain k v where x: "x = (k, v)" by (cases x)
    with that have kv: "(k, v) \<in> set (tickerCounts_of tweets)" by simp
    then have "matches_pattern k \<and> 1 \<le> v" by (rule tickerCounts_of_entries)
    moreover from kv have "v = int (count_list (concat (map tickerRegex tweets)) k)"
      by (rule tickerCounts_of_entry_count)
    ultimately show ?thesis using x by simp
  qed
qed

theorem no_trailing_boundary_witness:
  "list_all is_word ''ABCDE'' \<and> 3 \<le> length ''ABCDE'' \<and> \<not> is_word (hd '' now'')
   \<and> tickerRegex (''buy '' @ sigil # ''ABCDE'' @ '' now'')
      = tickerRegex ''buy '' @ [sigil # take (min (length ''ABCDE'') 4) ''ABCDE''] @ tickerRegex '' now''
   \<and> get_or_0 (extract_symbols (''$ABCDE '' @ sigil # ''ABCDE'' @ '' $ABCDE'')) ''$ABCD''
      = get_or_0 (extract_symbols ''$ABCDE '') ''$ABCD'' + 1
        + get_or_0 (extract_symbols '' $ABCDE'') ''$ABCD''
   \<and> (''$ABCD'', 1) \<in> set (tickerCounts_of [''buy $ABCDE now''])
   \<and> matches_pattern ''$ABCD''
   \<and> (1 :: int) = int (count_list (concat (map tickerRegex [''buy $ABCDE now''])) ''$ABCD'')"
proof -
  have h: "list_all is_word ''ABCDE'' \<and> 3 \<le> length ''ABCDE''
           \<and> ('' now'' = [] \<or> \<not> is_word (hd '' now''))"
    by (simp add: is_word_def)
  have h2: "list_all is_word ''ABCDE'' \<and> 3 \<le> length ''ABCDE''
           \<and> ('' $ABCDE'' = [] \<or> \<not> is_word (hd '' $ABCDE''))"
    by (simp add: is_word_def)
  have m: "(''$ABCD'', 1) \<in> set (tickerCounts_of [''buy $ABCDE now''])"
    by code_simp
  note t = no_trailing_boundary [of "[''buy $ABCDE now'']"]
  from t [THEN conjunct1, THEN spec, THEN spec, THEN spec, THEN mp, OF h, of "''buy ''"]
  have a: "tickerRegex (''buy '' @ sigil # ''ABCDE'' @ '' now'')
      = tickerRegex ''buy '' @ [sigil # take (min (length ''ABCDE'') 4) ''ABCDE'']
        @ tickerRegex '' now''" .
  from t [THEN conjunct2, THEN conjunct1, THEN spec, THEN spec, THEN spec, THEN spec,
      THEN mp, OF h2, of "''$ABCDE ''" "''$ABCD''"]
  have b: "get_or_0 (extract_symbols (''$ABCDE '' @ sigil # ''ABCDE'' @ '' $ABCDE'')) ''$ABCD''
      = get_or_0 (extract_symbols ''$ABCDE '') ''$ABCD'' + 1
        + get_or_0 (extract_symbols '' $ABCDE'') ''$ABCD''"
    by (simp add: sigil_def min_def)
  from t [THEN conjunct2, THEN conjunct2, THEN conjunct2, THEN conjunct2, THEN conjunct2,
      THEN bspec, OF m]
  have c: "matches_pattern ''$ABCD''
      \<and> (1 :: int) = int (count_list (concat (map tickerRegex [''buy $ABCDE now''])) ''$ABCD'')"
    by (simp only: prod.case)
  from h have h': "list_all is_word ''ABCDE'' \<and> 3 \<le> length ''ABCDE''
      \<and> \<not> is_word (hd '' now'')" by simp
  from h' a b m c show ?thesis by (intro conjI) (elim conjE, assumption)+
qed

section \<open>The scroll loop\<close>

lemma closes_append: "closes (xs @ ys) = closes xs + closes ys"
  by (simp add: closes_def)

lemma cycles_append: "cycles (xs @ ys) = cycles xs + cycles ys"
  by (simp add: cycles_def)

lemma harvested_append: "harvested (xs @ ys) = harvested xs @ harvested ys"
  by (simp add: harvested_def)

lemma quiet_append: "quiet (xs @ ys) \<longleftrightarrow> quiet xs \<and> quiet ys"
  by (auto simp: quiet_def harvested_append)

lemma scroll_loop_extends:
  assumes "scroll_loop r a n prev tr = Some y"
  shows "\<exists>ext. fst y = tr @ ext \<and> closes ext = 0 \<and> quiet ext
           \<and> snd y \<in> {Inr (), Inl ScrollFailure, Inl HeightMeasurementFailure}"
  using assms
proof (induction rule: scroll_loop.raw_induct [rotated 1, consumes 1])
  case (1 loop r a n prev tr y)
  show ?case
  proof (cases "autoScroll_throws r n")
    case True
    with 1(2) have "y = (tr @ [AutoScroll], Inl ScrollFailure)" by simp
    then show ?thesis by (simp add: closes_def quiet_def harvested_def is_report_def)
  next
    case False
    show ?thesis
    proof (cases "scrollHeight r (Suc n)")
      case None
      with False 1(2)
      have "y = (tr @ [AutoScroll, WaitFor scrollPause, EvalScrollHeight],
                 Inl HeightMeasurementFailure)" by simp
      then show ?thesis by (simp add: closes_def quiet_def harvested_def is_report_def)
    next
      case (Some h)
      show ?thesis
      proof (cases "h = prev")
        case True
        with False Some 1(2)
        have "y = (tr @ [AutoScroll, WaitFor scrollPause, EvalScrollHeight,
                         Log (ReachedEnd a)], Inr ())" by simp
        then show ?thesis by (simp add: closes_def quiet_def harvested_def is_report_def)
      next
        case neq: False
        let ?E = "[AutoScroll, WaitFor scrollPause, EvalScrollHeight, Log (Scrolling h)]"
        from False Some neq 1(2) have "loop r a (Suc n) h (tr @ ?E) = Some y" by simp
        then obtain ext where ext: "fst y = (tr @ ?E) @ ext" "closes ext = 0" "quiet ext"
            "snd y \<in> {Inr (), Inl ScrollFailure, Inl HeightMeasurementFailure}"
          using 1(1) by blast
        have "closes (?E @ ext) = 0" "quiet (?E @ ext)"
          using ext(2,3)
          by (simp_all add: closes_append quiet_append)
             (simp_all add: closes_def quiet_def harvested_def is_report_def)
        with ext(1,4) show ?thesis by (intro exI [of _ "?E @ ext"]) simp
      qed
    qed
  qed
qed

lemma scroll_loop_result:
  assumes "scroll_loop r a n prev tr = Some y"
    and "scrollHeight r n = Some prev" and "cycles tr = n"
  shows "\<exists>m. cycles (fst y) = Suc m \<and> n \<le> m
           \<and> (\<forall>j. n \<le> j \<and> j < m \<longrightarrow>
                  \<not> autoScroll_throws r j \<and> scrollHeight r (Suc j) \<noteq> None
                  \<and> scrollHeight r (Suc j) \<noteq> scrollHeight r j)
           \<and> snd y = (if autoScroll_throws r m then Inl ScrollFailure
                      else if scrollHeight r (Suc m) = None then Inl HeightMeasurementFailure
                      else Inr ())
           \<and> (snd y = Inr () \<longrightarrow> scrollHeight r (Suc m) = scrollHeight r m)"
  using assms
proof (induction rule: scroll_loop.raw_induct [rotated 1, consumes 1])
  case (1 loop r a n prev tr y)
  show ?case
  proof (cases "autoScroll_throws r n")
    case True
    with 1(2) have "y = (tr @ [AutoScroll], Inl ScrollFailure)" by simp
    with True 1(4) show ?thesis
      by (intro exI [of _ n]) (auto simp add: cycles_def)
  next
    case False
    show ?thesis
    proof (cases "scrollHeight r (Suc n)")
      case None
      with False 1(2)
      have "y = (tr @ [AutoScroll, WaitFor scrollPause, EvalScrollHeight],
                 Inl HeightMeasurementFailure)" by simp
      with False None 1(4) show ?thesis
        by (intro exI [of _ n]) (auto simp add: cycles_def)
    next
      case (Some h)
      show ?thesis
      proof (cases "h = prev")
        case True
        with False Some 1(2)
        have "y = (tr @ [AutoScroll, WaitFor scrollPause, EvalScrollHeight,
                         Log (ReachedEnd a)], Inr ())" by simp
        with False Some True 1(3,4) show ?thesis
          by (intro exI [of _ n]) (auto simp add: cycles_def)
      next
        case neq: False
        let ?E = "[AutoScroll, WaitFor scrollPause, EvalScrollHeight, Log (Scrolling h)]"
        from False Some neq 1(2) have run: "loop r a (Suc n) h (tr @ ?E) = Some y" by simp
        have "cycles (tr @ ?E) = Suc n" using 1(4) by (simp add: cycles_def)
        from 1(1) [OF run Some this]
        obtain m where m: "cycles (fst y) = Suc m" "Suc n \<le> m"
          "\<forall>j. Suc n \<le> j \<and> j < m \<longrightarrow>
                  \<not> autoScroll_throws r j \<and> scrollHeight r (Suc j) \<noteq> None
                  \<and> scrollHeight r (Suc j) \<noteq> scrollHeight r j"
          "snd y = (if autoScroll_throws r m then Inl ScrollFailure
                      else if scrollHeight r (Suc m) = None then Inl HeightMeasurementFailure
                      else Inr ())"
          "snd y = Inr () \<longrightarrow> scrollHeight r (Suc m) = scrollHeight r m"
          by blast
        have "\<not> autoScroll_throws r j \<and> scrollHeight r (Suc j) \<noteq> None
                  \<and> scrollHeight r (Suc j) \<noteq> scrollHeight r j" if "n \<le> j \<and> j < m" for j
        proof (cases "j = n")
          case True
          with False Some neq 1(3) show ?thesis by simp
        next
          case False
          with that have "Suc n \<le> j \<and> j < m" by simp
          with m(3) show ?thesis by blast
        qed
        with m show ?thesis by (intro exI [of _ m]) simp
      qed
    qed
  qed
qed

lemma scroll_loop_returns:
  assumes "\<forall>j. n \<le> j \<and> j \<le> m \<longrightarrow> \<not> autoScroll_throws r j"
    and "\<forall>j. n \<le> j \<and> j < m \<longrightarrow>
           scrollHeight r (Suc j) \<noteq> None \<and> scrollHeight r (Suc j) \<noteq> scrollHeight r j"
    and "scrollHeight r (Suc m) = scrollHeight r m"
    and "scrollHeight r n = Some prev" and "n \<le> m"
  shows "\<exists>tr'. scroll_loop r a n prev tr = Some (tr', Inr ())
           \<and> cycles tr' = cycles tr + (Suc m - n)"
  using assms
proof (induction "m - n" arbitrary: n prev tr)
  case 0
  then have "n = m" by simp
  with 0 have "\<not> autoScroll_throws r n" "scrollHeight r (Suc n) = Some prev" by simp_all
  then show ?case
    by (subst scroll_loop.simps) (simp add: cycles_def \<open>n = m\<close>)
next
  case (Suc d)
  then have lt: "n < m" by simp
  with Suc.prems have ok: "\<not> autoScroll_throws r n" by simp
  from lt Suc.prems(2) have "scrollHeight r (Suc n) \<noteq> None"
      "scrollHeight r (Suc n) \<noteq> scrollHeight r n" by simp_all
  then obtain h where h: "scrollHeight r (Suc n) = Some h" "h \<noteq> prev"
    using Suc.prems(4) by auto
  let ?E = "[AutoScroll, WaitFor scrollPause, EvalScrollHeight, Log (Scrolling h)]"
  have "\<exists>tr'. scroll_loop r a (Suc n) h (tr @ ?E) = Some (tr', Inr ())
           \<and> cycles tr' = cycles (tr @ ?E) + (Suc m - Suc n)"
  proof (rule Suc.hyps(1))
    show "d = m - Suc n" using Suc.hyps(2) by simp
    show "\<forall>j. Suc n \<le> j \<and> j \<le> m \<longrightarrow> \<not> autoScroll_throws r j" using Suc.prems(1) by simp
    show "\<forall>j. Suc n \<le> j \<and> j < m \<longrightarrow>
           scrollHeight r (Suc j) \<noteq> None \<and> scrollHeight r (Suc j) \<noteq> scrollHeight r j"
      using Suc.prems(2) by simp
    show "scrollHeight r (Suc m) = scrollHeight r m" by (rule Suc.prems(3))
    show "scrollHeight r (Suc n) = Some h" by (rule h(1))
    show "Suc n \<le> m" using lt by simp
  qed
  then obtain tr' where tr': "scroll_loop r a (Suc n) h (tr @ ?E) = Some (tr', Inr ())"
    "cycles tr' = cycles (tr @ ?E) + (Suc m - Suc n)" by blast
  have "scroll_loop r a n prev tr = Some (tr', Inr ())"
    using ok h tr'(1) by (subst scroll_loop.simps) simp
  moreover have "cycles tr' = cycles tr + (Suc m - n)"
    using tr'(2) lt by (simp add: cycles_def)
  ultimately show ?case by blast
qed

lemma scroll_detector_extends:
  assumes "scroll_detector r a tr = Some y"
  shows "\<exists>ext. fst y = tr @ ext \<and> closes ext = 0 \<and> quiet ext
           \<and> snd y \<in> {Inr (), Inl ScrollFailure, Inl HeightMeasurementFailure}"
proof (cases "scrollHeight r 0")
  case None
  with assms have "y = (tr @ [Log (StartingToScroll a), EvalScrollHeight],
                         Inl HeightMeasurementFailure)"
    by (simp add: scroll_detector_def)
  then show ?thesis by (simp add: closes_def quiet_def harvested_def is_report_def)
next
  case (Some h)
  let ?E = "[Log (StartingToScroll a), EvalScrollHeight]"
  from Some assms have "scroll_loop r a 0 h (tr @ ?E) = Some y"
    by (simp add: scroll_detector_def)
  then obtain ext where ext: "fst y = (tr @ ?E) @ ext" "closes ext = 0" "quiet ext"
      "snd y \<in> {Inr (), Inl ScrollFailure, Inl HeightMeasurementFailure}"
    using scroll_loop_extends by blast
  have "closes (?E @ ext) = 0" "quiet (?E @ ext)"
    using ext(2,3)
    by (simp_all add: closes_append quiet_append)
       (simp_all add: closes_def quiet_def harvested_def is_report_def)
  with ext(1,4) show ?thesis by (intro exI [of _ "?E @ ext"]) simp
qed

lemma scroll_detector_result:
  assumes "scroll_detector r a [] = Some (tr, res)" and "scrollHeight r 0 \<noteq> None"
  shows "\<exists>m. cycles tr = Suc m
           \<and> (\<forall>j < m. \<not> autoScroll_throws r j \<and> scrollHeight r (Suc j) \<noteq> None
                  \<and> scrollHeight r (Suc j) \<noteq> scrollHeight r j)
           \<and> res = (if autoScroll_throws r m then Inl ScrollFailure
                      else if scrollHeight r (Suc m) = None then Inl HeightMeasurementFailure
                      else Inr ())
           \<and> (res = Inr () \<longrightarrow> scrollHeight r (Suc m) = scrollHeight r m)"
proof -
  from assms(2) obtain h where h: "scrollHeight r 0 = Some h" by auto
  let ?E = "[Log (StartingToScroll a), EvalScrollHeight]"
  from h assms(1) have "scroll_loop r a 0 h ?E = Some (tr, res)"
    by (simp add: scroll_detector_def)
  moreover have "cycles ?E = 0" by (simp add: cycles_def)
  ultimately show ?thesis
    using scroll_loop_result [of r a 0 h ?E "(tr, res)"] h by simp
qed

lemma scroll_detector_returns:
  assumes "\<forall>j \<le> m. \<not> autoScroll_throws r j"
    and "\<forall>j < m. scrollHeight r (Suc j) \<noteq> None \<and> scrollHeight r (Suc j) \<noteq> scrollHeight r j"
    and "scrollHeight r (Suc m) = scrollHeight r m" and "scrollHeight r 0 \<noteq> None"
  shows "\<exists>tr. scroll_detector r a [] = Some (tr, Inr ()) \<and> cycles tr = Suc m"
proof -
  from assms(4) obtain h where h: "scrollHeight r 0 = Some h" by auto
  let ?E = "[Log (StartingToScroll a), EvalScrollHeight]"
  have "\<exists>tr'. scroll_loop r a 0 h ?E = Some (tr', Inr ())
           \<and> cycles tr' = cycles ?E + (Suc m - 0)"
    using assms(1,2,3) h by (intro scroll_loop_returns) simp_all
  then show ?thesis using h by (simp add: scroll_detector_def cycles_def)
qed

text \<open>
  Claim C5. A session whose first three height readings are 500, 1200, 1200 (and whose
  scrolls do not throw) ends the detector after exactly two cycles, with exhaustion
  reported; a height that is the same at the first two readings ends it after exactly
  one cycle, with exhaustion reported and no error; while the first \<open>N\<close> readings are
  strictly increasing the detector does not end before cycle \<open>N\<close>, whatever it ends
  with; and whenever it reports exhaustion, the last two readings were equal.
\<close>

theorem scroll_detector_cycles:
  "(scrollHeight r 0 = Some 500 \<and> scrollHeight r 1 = Some 1200 \<and> scrollHeight r 2 = Some 1200
      \<and> \<not> autoScroll_throws r 0 \<and> \<not> autoScroll_throws r 1
    \<longrightarrow> (\<exists>tr. scroll_detector r a [] = Some (tr, Inr ()) \<and> cycles tr = 2))
   \<and> (scrollHeight r 0 = Some h \<and> scrollHeight r 1 = Some h \<and> \<not> autoScroll_throws r 0
    \<longrightarrow> (\<exists>tr. scroll_detector r a [] = Some (tr, Inr ()) \<and> cycles tr = 1))
   \<and> ((\<forall>j < length hs. scrollHeight r j = Some (hs ! j)) \<and> sorted_wrt (<) hs
       \<and> (\<forall>j. Suc j < length hs \<longrightarrow> \<not> autoScroll_throws r j)
       \<and> scroll_detector r a [] = Some (tr, res)
    \<longrightarrow> length hs \<le> cycles tr)
   \<and> (scroll_detector r a [] = Some (tr, Inr ())
    \<longrightarrow> 1 \<le> cycles tr \<and> scrollHeight r (cycles tr) = scrollHeight r (cycles tr - 1)
        \<and> scrollHeight r (cycles tr) \<noteq> None)"
proof (intro conjI impI)
  assume a: "scrollHeight r 0 = Some 500 \<and> scrollHeight r 1 = Some 1200
      \<and> scrollHeight r 2 = Some 1200 \<and> \<not> autoScroll_throws r 0 \<and> \<not> autoScroll_throws r 1"
  have "\<exists>tr. scroll_detector r a [] = Some (tr, Inr ()) \<and> cycles tr = Suc 1"
  proof (rule scroll_detector_returns)
    show "\<forall>j \<le> 1. \<not> autoScroll_throws r j"
      using a by (auto simp: le_Suc_eq)
    show "\<forall>j < 1. scrollHeight r (Suc j) \<noteq> None \<and> scrollHeight r (Suc j) \<noteq> scrollHeight r j"
      using a by simp
    show "scrollHeight r (Suc 1) = scrollHeight r 1" using a by (simp add: numeral_2_eq_2)
    show "scrollHeight r 0 \<noteq> None" using a by simp
  qed
  then show "\<exists>tr. scroll_detector r a [] = Some (tr, Inr ()) \<and> cycles tr = 2"
    by (simp add: numeral_2_eq_2)
next
  assume b: "scrollHeight r 0 = Some h \<and> scrollHeight r 1 = Some h \<and> \<not> autoScroll_throws r 0"
  have "\<exists>tr. scroll_detector r a [] = Some (tr, Inr ()) \<and> cycles tr = Suc 0"
    using b by (intro scroll_detector_returns) simp_all
  then show "\<exists>tr. scroll_detector r a [] = Some (tr, Inr ()) \<and> cycles tr = 1" by simp
next
  assume c: "(\<forall>j < length hs. scrollHeight r j = Some (hs ! j)) \<and> sorted_wrt (<) hs
       \<and> (\<forall>j. Suc j < length hs \<longrightarrow> \<not> autoScroll_throws r j)
       \<and> scroll_detector r a [] = Some (tr, res)"
  show "length hs \<le> cycles tr"
  proof (cases "hs = []")
    case True
    then show ?thesis by simp
  next
    case False
    with c have "scrollHeight r 0 \<noteq> None" by simp
    with c obtain m where m: "cycles tr = Suc m"
        "res = (if autoScroll_throws r m then Inl ScrollFailure
                else if scrollHeight r (Suc m) = None then Inl HeightMeasurementFailure
                else Inr ())"
        "res = Inr () \<longrightarrow> scrollHeight r (Suc m) = scrollHeight r m"
      using scroll_detector_result [of r a tr res] by blast
    show ?thesis
    proof (rule ccontr)
      assume "\<not> length hs \<le> cycles tr"
      with m(1) have lt: "Suc m < length hs" by simp
      with c have "\<not> autoScroll_throws r m" "scrollHeight r (Suc m) = Some (hs ! Suc m)"
        "scrollHeight r m = Some (hs ! m)" by simp_all
      with m(2,3) have "hs ! Suc m = hs ! m" by simp
      moreover from c lt have "hs ! m < hs ! Suc m"
        by (simp add: sorted_wrt_iff_nth_less)
      ultimately show False by simp
    qed
  qed
next
  assume d: "scroll_detector r a [] = Some (tr, Inr ())"
  have h0: "scrollHeight r 0 \<noteq> None"
  proof
    assume "scrollHeight r 0 = None"
    with d show False by (simp add: scroll_detector_def)
  qed
  with d obtain m where m: "cycles tr = Suc m"
        "Inr () = (if autoScroll_throws r m then Inl ScrollFailure
                else if scrollHeight r (Suc m) = None then Inl HeightMeasurementFailure
                else (Inr () :: error + unit))"
        "scrollHeight r (Suc m) = scrollHeight r m"
    using scroll_detector_result [of r a tr "Inr ()"] by blast
  from m(2) have "scrollHeight r (Suc m) \<noteq> None" by (auto split: if_splits)
  with m(1,3) show "1 \<le> cycles tr" "scrollHeight r (cycles tr) = scrollHeight r (cycles tr - 1)"
        "scrollHeight r (cycles tr) \<noteq> None" by simp_all
qed

theorem scroll_detector_cycles_witness:
  "(\<exists>tr. scroll_detector (simulated [500, 1200, 1200] []) ''Barchart'' [] = Some (tr, Inr ())
         \<and> cycles tr = 2)
   \<and> (\<exists>tr. scroll_detector (simulated [800, 800] []) ''Barchart'' [] = Some (tr, Inr ())
         \<and> cycles tr = 1)
   \<and> scroll_detector (simulated [100, 200, 300] []) ''Barchart'' []
       = Some ([Log (StartingToScroll ''Barchart''), EvalScrollHeight,
                AutoScroll, WaitFor 3000, EvalScrollHeight, Log (Scrolling 200),
                AutoScroll, WaitFor 3000, EvalScrollHeight, Log (Scrolling 300),
                AutoScroll, WaitFor 3000, EvalScrollHeight], Inl HeightMeasurementFailure)
   \<and> length [100, 200, 300 :: nat]
       \<le> cycles [Log (StartingToScroll ''Barchart''), EvalScrollHeight,
                AutoScroll, WaitFor 3000, EvalScrollHeight, Log (Scrolling 200),
                AutoScroll, WaitFor 3000, EvalScrollHeight, Log (Scrolling 300),
                AutoScroll, WaitFor 3000, EvalScrollHeight]
   \<and> scrollHeight (simulated [800, 800] []) 1 = scrollHeight (simulated [800, 800] []) 0"
proof -
  let ?r1 = "simulated [500, 1200, 1200] []"
  let ?r2 = "simulated [800, 800] []"
  let ?r3 = "simulated [100, 200, 300] []"
  let ?T3 = "[Log (StartingToScroll ''Barchart''), EvalScrollHeight,
                AutoScroll, WaitFor 3000, EvalScrollHeight, Log (Scrolling 200),
                AutoScroll, WaitFor 3000, EvalScrollHeight, Log (Scrolling 300),
                AutoScroll, WaitFor 3000, EvalScrollHeight]"
  let ?T2 = "[Log (StartingToScroll ''Barchart''), EvalScrollHeight,
                AutoScroll, WaitFor 3000, EvalScrollHeight, Log (ReachedEnd ''Barchart'')]"
  have h1: "scrollHeight ?r1 0 = Some 500 \<and> scrollHeight ?r1 1 = Some 1200
      \<and> scrollHeight ?r1 2 = Some 1200 \<and> \<not> autoScroll_throws ?r1 0
      \<and> \<not> autoScroll_throws ?r1 1"
    by (simp add: simulated_def)
  have h2: "scrollHeight ?r2 0 = Some 800 \<and> scrollHeight ?r2 1 = Some 800
      \<and> \<not> autoScroll_throws ?r2 0"
    by (simp add: simulated_def)
  have e2: "scroll_detector ?r2 ''Barchart'' [] = Some (?T2, Inr ())"
    by code_simp
  have e3: "scroll_detector ?r3 ''Barchart'' [] = Some (?T3, Inl HeightMeasurementFailure)"
    by code_simp
  have h3: "(\<forall>j < length [100, 200, 300 :: nat]. scrollHeight ?r3 j = Some ([100, 200, 300] ! j))
      \<and> sorted_wrt (<) [100, 200, 300 :: nat]
      \<and> (\<forall>j. Suc j < length [100, 200, 300 :: nat] \<longrightarrow> \<not> autoScroll_throws ?r3 j)
      \<and> scroll_detector ?r3 ''Barchart'' [] = Some (?T3, Inl HeightMeasurementFailure)"
    using e3 by (simp add: simulated_def)
  have c1: "\<exists>tr. scroll_detector ?r1 ''Barchart'' [] = Some (tr, Inr ()) \<and> cycles tr = 2"
    using scroll_detector_cycles [where r = ?r1 and a = "''Barchart''", THEN conjunct1] h1
    by (rule mp)
  have c2: "\<exists>tr. scroll_detector ?r2 ''Barchart'' [] = Some (tr, Inr ()) \<and> cycles tr = 1"
    using scroll_detector_cycles [where r = ?r2 and a = "''Barchart''" and h = 800,
        THEN conjunct2, THEN conjunct1] h2
    by (rule mp)
  have c3: "length [100, 200, 300 :: nat] \<le> cycles ?T3"
    using scroll_detector_cycles [where r = ?r3 and a = "''Barchart''"
        and hs = "[100, 200, 300]" and tr = ?T3 and res = "Inl HeightMeasurementFailure",
        THEN conjunct2, THEN conjunct2, THEN conjunct1] h3
    by (rule mp)
  have c4: "1 \<le> cycles ?T2 \<and> scrollHeight ?r2 (cycles ?T2) = scrollHeight ?r2 (cycles ?T2 - 1)
        \<and> scrollHeight ?r2 (cycles ?T2) \<noteq> None"
    using scroll_detector_cycles [where r = ?r2 and a = "''Barchart''" and tr = ?T2,
        THEN conjunct2, THEN conjunct2, THEN conjunct2] e2
    by (rule mp)
  have "cycles ?T2 = 1" by (simp add: cycles_def)
  with c4 have c4': "scrollHeight ?r2 1 = scrollHeight ?r2 0" by simp
  from c1 c2 e3 c3 c4' show ?thesis by (intro conjI)
qed

section \<open>The harvest of one source\<close>

lemma scrapeTwitter_cases:
  assumes "scrapeTwitter r a = Some (tr, res)"
  shows "(launch_throws r \<and> tr = [Launch] \<and> res = Inl LaunchFailure)
       \<or> (\<not> launch_throws r \<and> newPage_throws r \<and> tr = [Launch, NewPage]
            \<and> res = Inl NewPageFailure)
       \<or> (\<not> launch_throws r \<and> \<not> newPage_throws r \<and> goto_throws r
            \<and> tr = [Launch, NewPage, Goto a] \<and> res = Inl NavigationFailure)
       \<or> (\<exists>ext e. tr = [Launch, NewPage, Goto a] @ ext \<and> closes ext = 0 \<and> quiet ext
            \<and> res = Inl e \<and> e \<in> {ScrollFailure, HeightMeasurementFailure})
       \<or> (\<exists>ext. tr = [Launch, NewPage, Goto a] @ ext @ [WaitForSelector]
            \<and> closes ext = 0 \<and> quiet ext \<and> res = Inl ReadinessTimeout)
       \<or> (\<exists>ext. tr = [Launch, NewPage, Goto a] @ ext @ [WaitForSelector, Content]
            \<and> closes ext = 0 \<and> quiet ext \<and> res = Inl ExtractionFailure)
       \<or> (\<exists>ext tweets. tr = [Launch, NewPage, Goto a] @ ext @ [WaitForSelector, Content, Close]
            \<and> closes ext = 0 \<and> quiet ext \<and> article_texts r = Some tweets
            \<and> res = (if close_throws r then Inl CloseFailure
                      else Inr (tickerCounts_of tweets)))"
proof (cases "launch_throws r \<or> newPage_throws r \<or> goto_throws r")
  case True
  with assms show ?thesis by (auto simp: scrapeTwitter_def split: if_splits)
next
  case False
  let ?P = "[Launch, NewPage, Goto a]"
  from False assms obtain y where y: "scroll_detector r a ?P = Some y"
    by (cases "scroll_detector r a ?P") (simp_all add: scrapeTwitter_def)
  then obtain ext where ext: "fst y = ?P @ ext" "closes ext = 0" "quiet ext"
      "snd y \<in> {Inr (), Inl ScrollFailure, Inl HeightMeasurementFailure}"
    using scroll_detector_extends by blast
  obtain t u where tu: "y = (t, u)" by (cases y)
  with ext(1) have t: "t = ?P @ ext" by simp
  show ?thesis
  proof (cases u)
    case (Inl e)
    with False assms y tu have "tr = t" "res = Inl e" by (simp_all add: scrapeTwitter_def)
    moreover from Inl tu ext(4) have "e \<in> {ScrollFailure, HeightMeasurementFailure}" by auto
    ultimately show ?thesis using t ext(2,3) by blast
  next
    case (Inr v)
    show ?thesis
    proof (cases "waitForSelector_throws r")
      case True
      with False assms y tu Inr have "tr = t @ [WaitForSelector]" "res = Inl ReadinessTimeout"
        by (simp_all add: scrapeTwitter_def)
      with t ext(2,3) show ?thesis by simp
    next
      case ready: False
      show ?thesis
      proof (cases "article_texts r")
        case None
        with ready False assms y tu Inr
        have "tr = t @ [WaitForSelector, Content]" "res = Inl ExtractionFailure"
          by (simp_all add: scrapeTwitter_def)
        with t ext(2,3) show ?thesis by simp
      next
        case (Some tweets)
        with ready False assms y tu Inr
        have "tr = t @ [WaitForSelector, Content, Close]"
          "res = (if close_throws r then Inl CloseFailure else Inr (tickerCounts_of tweets))"
          by (simp_all add: scrapeTwitter_def Let_def split: if_splits)
        with t ext(2,3) Some show ?thesis by simp
      qed
    qed
  qed
qed

lemma closes_simps:
  "closes [] = 0" "closes (Close # tr) = Suc (closes tr)" "e \<noteq> Close \<Longrightarrow> closes (e # tr) = closes tr"
  by (simp_all add: closes_def)

lemma scrapeTwitter_closes:
  assumes "scrapeTwitter r a = Some (tr, res)"
  shows "closes tr = (if (\<exists>c. res = Inr c) \<or> res = Inl CloseFailure then 1 else 0)"
  using scrapeTwitter_cases [OF assms]
  by (elim disjE exE conjE) (auto simp: closes_append closes_simps)

lemma scrapeTwitter_quiet:
  assumes "scrapeTwitter r a = Some (tr, res)"
  shows "quiet tr"
  using scrapeTwitter_cases [OF assms]
  by (elim disjE exE conjE)
     (simp_all add: quiet_append, simp_all add: quiet_def harvested_def is_report_def)

text \<open>
  Claim C1, as the code has it. \<open>scrapeTwitter\<close> has no \<open>try\<close>: \<open>browser.close()\<close> is
  invoked exactly once on the path that reaches it, that is when the harvest succeeds
  (and when the close call itself is what throws); when the launch, the navigation or
  any later step before it throws, it is not invoked at all.
\<close>

theorem close_once_on_success_only:
  "scrapeTwitter r a = Some (tr, res) \<Longrightarrow>
     closes tr = (if (\<exists>c. res = Inr c) \<or> res = Inl CloseFailure then 1 else 0)"
  by (rule scrapeTwitter_closes)

theorem close_once_on_success_only_witness:
  "scrapeTwitter (simulated [500, 1200, 1200] [''$AAPL up, $AAPL again, $TSLA'']) ''Barchart''
     = Some ([Launch, NewPage, Goto ''Barchart'', Log (StartingToScroll ''Barchart''),
              EvalScrollHeight, AutoScroll, WaitFor 3000, EvalScrollHeight,
              Log (Scrolling 1200), AutoScroll, WaitFor 3000, EvalScrollHeight,
              Log (ReachedEnd ''Barchart''), WaitForSelector, Content, Close],
             Inr [(''$AAPL'', 2), (''$TSLA'', 1)])
   \<and> closes [Launch, NewPage, Goto ''Barchart'', Log (StartingToScroll ''Barchart''),
              EvalScrollHeight, AutoScroll, WaitFor 3000, EvalScrollHeight,
              Log (Scrolling 1200), AutoScroll, WaitFor 3000, EvalScrollHeight,
              Log (ReachedEnd ''Barchart''), WaitForSelector, Content, Close] = 1"
proof -
  let ?tr = "[Launch, NewPage, Goto ''Barchart'', Log (StartingToScroll ''Barchart''),
              EvalScrollHeight, AutoScroll, WaitFor 3000, EvalScrollHeight,
              Log (Scrolling 1200), AutoScroll, WaitFor 3000, EvalScrollHeight,
              Log (ReachedEnd ''Barchart''), WaitForSelector, Content, Close]"
  have h: "scrapeTwitter (simulated [500, 1200, 1200] [''$AAPL up, $AAPL again, $TSLA''])
             ''Barchart'' = Some (?tr, Inr [(''$AAPL'', 2), (''$TSLA'', 1)])"
    by code_simp
  from close_once_on_success_only [OF h] have "closes ?tr = 1" by simp
  with h show ?thesis by (intro conjI)
qed

text \<open>
  The claim as the specification states it fails: when the navigation throws, the session
  has been launched and \<open>browser.close()\<close> is never invoked.
\<close>

theorem close_on_every_path_counterexample:
  "scrapeTwitter unreachable ''Barchart''
     = Some ([Launch, NewPage, Goto ''Barchart''], Inl NavigationFailure)
   \<and> closes [Launch, NewPage, Goto ''Barchart''] \<noteq> 1"
  by (simp add: scrapeTwitter_def unreachable_def simulated_def closes_def)

section \<open>A run that meets a failing source\<close>

lemma harvested_ScrapingAccount: "harvested (Log (ScrapingAccount a) # tr) = a # harvested tr"
  by (simp add: harvested_def)

lemma harvest_all_aborts:
  assumes "\<forall>b \<in> set pre. \<exists>t c. scrapeTwitter (w b) b = Some (t, Inr c)"
    and "scrapeTwitter (w a) a = Some (ta, Inl e)"
  shows "\<exists>ext. harvest_all w (pre @ a # post) tally tr = Some (tr @ ext, Inl e)
           \<and> harvested ext = pre @ [a] \<and> filter is_report ext = []
           \<and> Log AllProcessed \<notin> set ext"
  using assms(1)
proof (induction pre arbitrary: tally tr)
  case Nil
  from assms(2) have "quiet ta" by (rule scrapeTwitter_quiet)
  then have "harvested (Log (ScrapingAccount a) # ta) = [a]"
      "filter is_report (Log (ScrapingAccount a) # ta) = []"
      "Log AllProcessed \<notin> set (Log (ScrapingAccount a) # ta)"
    by (simp_all add: quiet_def harvested_ScrapingAccount is_report_def)
  moreover have "harvest_all w ([] @ a # post) tally tr
                 = Some (tr @ Log (ScrapingAccount a) # ta, Inl e)"
    using assms(2) by simp
  ultimately show ?case
    by (intro exI [of _ "Log (ScrapingAccount a) # ta"]) simp
next
  case (Cons b pre)
  then obtain t c where b: "scrapeTwitter (w b) b = Some (t, Inr c)" by auto
  then have "quiet t" by (rule scrapeTwitter_quiet)
  let ?tr = "tr @ [Log (ScrapingAccount b)] @ t"
  from Cons.prems have "\<forall>b \<in> set pre. \<exists>t c. scrapeTwitter (w b) b = Some (t, Inr c)"
    by simp
  from Cons.IH [OF this, of "merge_results tally c" ?tr]
  obtain ext where ext:
      "harvest_all w (pre @ a # post) (merge_results tally c) ?tr = Some (?tr @ ext, Inl e)"
      "harvested ext = pre @ [a]" "filter is_report ext = []" "Log AllProcessed \<notin> set ext"
    by (elim exE conjE)
  let ?ext = "Log (ScrapingAccount b) # t @ ext"
  have "harvest_all w ((b # pre) @ a # post) tally tr = Some (tr @ ?ext, Inl e)"
    using b ext(1) by simp
  moreover have "harvested ?ext = (b # pre) @ [a]"
    using \<open>quiet t\<close> ext(2) by (simp add: harvested_ScrapingAccount harvested_append quiet_def)
  moreover have "filter is_report ?ext = []" "Log AllProcessed \<notin> set ?ext"
    using \<open>quiet t\<close> ext(3,4) by (simp_all add: quiet_def is_report_def)
  ultimately show ?case
    by (intro exI [of _ ?ext]) simp
qed

text \<open>
  Claim C8. When the harvest of a source fails (the sources before it having succeeded),
  the error leaves \<open>scrapeAndPrint\<close> uncaught and is the result of the run: the accounts
  begun are exactly those up to the failing one, none after it, and the run prints no
  report line and no closing line.
\<close>

theorem failure_aborts_run:
  assumes "\<forall>b \<in> set pre. \<exists>t c. scrapeTwitter (w b) b = Some (t, Inr c)"
    and "scrapeTwitter (w a) a = Some (ta, Inl e)"
  shows "\<exists>tr. scrapeAndPrint w (pre @ a # post) startTime currentTime = Some (tr, Inl e)
           \<and> harvested tr = pre @ [a] \<and> filter is_report tr = []
           \<and> Log AllProcessed \<notin> set tr"
proof -
  from harvest_all_aborts [OF assms, of post "[]" "[]"]
  obtain ext where ext: "harvest_all w (pre @ a # post) [] [] = Some (ext, Inl e)"
      "harvested ext = pre @ [a]" "filter is_report ext = []" "Log AllProcessed \<notin> set ext"
    by auto
  then have "scrapeAndPrint w (pre @ a # post) startTime currentTime = Some (ext, Inl e)"
    by (simp add: scrapeAndPrint_def)
  with ext(2,3,4) show ?thesis by (intro exI [of _ ext]) simp
qed

theorem failure_aborts_run_witness:
  "\<exists>tr. scrapeAndPrint sample_world accounts 0 900000 = Some (tr, Inl NavigationFailure)
        \<and> harvested tr = [''Mr_Derivatives'', ''warrior_0719'']
        \<and> filter is_report tr = [] \<and> Log AllProcessed \<notin> set tr"
proof -
  let ?post = "[''ChartingProdigy'', ''allstarcharts'', ''yuriymatso'', ''TriggerTrades'',
      ''AdamMancini4'', ''CordovaTrades'', ''Barchart'', ''RoyLMattox'']"
  have acc: "accounts = [''Mr_Derivatives''] @ ''warrior_0719'' # ?post"
    by (simp add: accounts_def)
  have "scrapeTwitter (sample_world ''Mr_Derivatives'') ''Mr_Derivatives''
        = Some ([Launch, NewPage, Goto ''Mr_Derivatives'',
                 Log (StartingToScroll ''Mr_Derivatives''),
                 EvalScrollHeight, AutoScroll, WaitFor 3000, EvalScrollHeight,
                 Log (Scrolling 1200), AutoScroll, WaitFor 3000, EvalScrollHeight,
                 Log (ReachedEnd ''Mr_Derivatives''), WaitForSelector, Content, Close],
                Inr [(''$AAPL'', 2), (''$TSLA'', 1)])"
    by code_simp
  then have h1: "\<forall>b \<in> set [''Mr_Derivatives''].
                   \<exists>t c. scrapeTwitter (sample_world b) b = Some (t, Inr c)"
    by simp
  have h2: "scrapeTwitter (sample_world ''warrior_0719'') ''warrior_0719''
        = Some ([Launch, NewPage, Goto ''warrior_0719''], Inl NavigationFailure)"
    by code_simp
  from failure_aborts_run [OF h1 h2, of ?post 0 900000]
  show ?thesis unfolding acc by simp
qed

section \<open>Merging\<close>

lemma map_of_get: 
  "map_of obj k = (if k \<in> set (Object_keys obj) then Some (get_or_0 obj k) else None)"
  by (auto simp: get_or_0_alt Object_keys_def map_of_eq_None_iff
      split: option.splits)

lemma get_absent: "k \<notin> set (Object_keys obj) \<Longrightarrow> get_or_0 obj k = 0"
  by (simp add: get_or_0_alt map_of_get)

lemma merge_ticker_present:
  assumes "k \<in> set (Object_keys results)"
  shows "merge_ticker results tally k
         = set_prop tally k (get_or_0 tally k + get_or_0 results k)"
proof -
  from assms have "map_of results k = Some (get_or_0 results k)" by (simp add: map_of_get)
  then show ?thesis by (simp add: merge_ticker_def)
qed

lemma get_merge_keys:
  assumes "distinct ks" and "set ks \<subseteq> set (Object_keys results)"
  shows "get_or_0 (foldl (merge_ticker results) tally ks) t
         = get_or_0 tally t + (if t \<in> set ks then get_or_0 results t else 0)"
  using assms
proof (induction ks arbitrary: tally)
  case Nil
  then show ?case by simp
next
  case (Cons k ks)
  then have "k \<in> set (Object_keys results)" "k \<notin> set ks" "distinct ks"
      "set ks \<subseteq> set (Object_keys results)" by simp_all
  with Cons.IH [of "merge_ticker results tally k"] show ?case
    by (auto simp: merge_ticker_present get_set_prop)
qed


lemma distinct_merge_keys:
  assumes "set ks \<subseteq> set (Object_keys results)" and "distinct (Object_keys tally)"
  shows "distinct (Object_keys (foldl (merge_ticker results) tally ks))"
  using assms
proof (induction ks arbitrary: tally)
  case Nil
  then show ?case by simp
next
  case (Cons k ks)
  then show ?case by (simp add: merge_ticker_present distinct_set_prop)
qed

lemma get_merge_results:
  assumes "distinct (Object_keys results)"
  shows "get_or_0 (merge_results tally results) t = get_or_0 tally t + get_or_0 results t"
  using get_merge_keys [of "Object_keys results" results tally t] assms
  by (simp add: merge_results_def get_absent)


lemma distinct_merge_results:
  "distinct (Object_keys tally) \<Longrightarrow> distinct (Object_keys (merge_results tally results))"
  by (simp add: merge_results_def distinct_merge_keys)

lemma get_foldl_merge:
  assumes "\<forall>r \<in> set rs. distinct (Object_keys r)"
  shows "get_or_0 (foldl merge_results tally rs) t
         = get_or_0 tally t + sum_list (map (\<lambda>r. get_or_0 r t) rs)"
  using assms
  by (induction rs arbitrary: tally) (simp_all add: get_merge_results)


lemma distinct_foldl_merge:
  "distinct (Object_keys tally) \<Longrightarrow> distinct (Object_keys (foldl merge_results tally rs))"
  by (induction rs arbitrary: tally) (simp_all add: distinct_merge_results)






section \<open>The tally of one run\<close>

lemma harvest_gives_tickerCounts:
  assumes "harvest_gives w a c"
  shows "\<exists>tweets. c = tickerCounts_of tweets"
proof -
  from assms obtain tr where "scrapeTwitter (w a) a = Some (tr, Inr c)"
    by (auto simp: harvest_gives_def)
  from scrapeTwitter_cases [OF this] show ?thesis
    by (elim disjE exE conjE) (auto split: if_splits)
qed

lemma tickerCounts_of_distinct: "distinct (Object_keys (tickerCounts_of tweets))"
  unfolding tickerCounts_of_fold by (rule distinct_count_tickers) (simp add: keys_Nil)

lemma tickerCounts_of_get: "0 \<le> get_or_0 (tickerCounts_of tweets) k"
  by (simp add: tickerCounts_of_fold get_count_tickers get_or_0_Nil)

lemma distinct_entry_get:
  assumes "distinct (Object_keys obj)" and "(k, v) \<in> set obj"
  shows "get_or_0 obj k = v"
proof -
  from assms have "map_of obj k = Some v" by (simp add: Object_keys_def)
  then show ?thesis by (simp add: get_or_0_alt)
qed

lemma merge_all_snoc: "merge_all (rs @ [r]) = merge_results (merge_all rs) r"
  by (simp add: merge_all_def)

lemma merge_all_distinct: "distinct (Object_keys (merge_all rs))"
  unfolding merge_all_def by (rule distinct_foldl_merge) (simp add: keys_Nil)

lemma get_merge_all_nonneg:
  assumes "\<forall>r \<in> set rs. distinct (Object_keys r) \<and> (\<forall>k. 0 \<le> get_or_0 r k)"
  shows "0 \<le> get_or_0 (merge_all rs) k"
proof -
  from assms have "get_or_0 (merge_all rs) k = sum_list (map (\<lambda>r. get_or_0 r k) rs)"
    by (simp add: merge_all_def get_foldl_merge get_or_0_Nil)
  moreover from assms have "0 \<le> sum_list (map (\<lambda>r. get_or_0 r k) rs)"
    by (intro sum_list_nonneg) auto
  ultimately show ?thesis by simp
qed

lemma harvest_results_wellformed:
  assumes "list_all2 (harvest_gives w) accs cs"
  shows "\<forall>r \<in> set cs. distinct (Object_keys r) \<and> (\<forall>k. 0 \<le> get_or_0 r k)"
proof
  fix r assume "r \<in> set cs"
  with assms obtain a where "harvest_gives w a r"
    by (auto simp: list_all2_conv_all_nth in_set_conv_nth)
  then obtain tweets where "r = tickerCounts_of tweets"
    using harvest_gives_tickerCounts by blast
  then show "distinct (Object_keys r) \<and> (\<forall>k. 0 \<le> get_or_0 r k)"
    by (simp add: tickerCounts_of_distinct tickerCounts_of_get)
qed

lemma harvest_all_success:
  assumes "harvest_all w accs tally tr = Some (tr', Inr t)"
  shows "\<exists>cs. list_all2 (harvest_gives w) accs cs \<and> t = foldl merge_results tally cs
           \<and> filter is_report tr' = filter is_report tr"
  using assms
proof (induction accs arbitrary: tally tr)
  case Nil
  then show ?case by simp
next
  case (Cons a accs)
  from Cons.prems obtain ta c where a: "scrapeTwitter (w a) a = Some (ta, Inr c)"
    and rest: "harvest_all w accs (merge_results tally c)
                 (tr @ [Log (ScrapingAccount a)] @ ta) = Some (tr', Inr t)"
    by (auto split: option.splits sum.splits)
  from a have q: "quiet ta" by (rule scrapeTwitter_quiet)
  from a have g: "harvest_gives w a c" by (auto simp: harvest_gives_def)
  from Cons.IH [OF rest] obtain cs where cs: "list_all2 (harvest_gives w) accs cs"
      "t = foldl merge_results (merge_results tally c) cs"
      "filter is_report tr' = filter is_report (tr @ [Log (ScrapingAccount a)] @ ta)"
    by (elim exE conjE)
  from cs(3) q have "filter is_report tr' = filter is_report tr"
    by (simp add: quiet_def is_report_def)
  with g cs(1,2) show ?case
    by (intro exI [of _ "c # cs"]) simp
qed

lemma filter_report_lines: "filter is_report (report_lines t m) = report_lines t m"
  by (simp add: report_lines_def is_report_def filter_map comp_def)

lemma scrapeAndPrint_reports:
  assumes "scrapeAndPrint w accs startTime currentTime = Some (tr, Inr ())"
  shows "\<exists>cs. list_all2 (harvest_gives w) accs cs
           \<and> filter is_report tr
             = report_lines (merge_all cs) (elapsedMinutes startTime currentTime)"
proof -
  from assms obtain th t where h: "harvest_all w accs [] [] = Some (th, Inr t)"
    and tr: "tr = th @ report_lines t (elapsedMinutes startTime currentTime) @ [Log AllProcessed]"
    by (auto simp: scrapeAndPrint_def split: option.splits sum.splits)
  from harvest_all_success [OF h] obtain cs where cs: "list_all2 (harvest_gives w) accs cs"
      "t = foldl merge_results [] cs" "filter is_report th = filter is_report []"
    by (elim exE conjE)
  from tr cs(2,3) have "filter is_report tr
      = report_lines (merge_all cs) (elapsedMinutes startTime currentTime)"
    by (simp add: filter_report_lines merge_all_def is_report_def)
  with cs(1) show ?thesis by (intro exI [of _ cs]) simp
qed

lemma tally_grows:
  assumes "\<forall>r \<in> set cs. distinct (Object_keys r) \<and> (\<forall>k. 0 \<le> get_or_0 r k)"
  shows "get_or_0 (merge_all (take j cs)) k \<le> get_or_0 (merge_all (take (Suc j) cs)) k"
proof (cases "j < length cs")
  case True
  then have "take (Suc j) cs = take j cs @ [cs ! j]" by (rule take_Suc_conv_app_nth)
  moreover from True assms have "distinct (Object_keys (cs ! j))" "0 \<le> get_or_0 (cs ! j) k"
    by simp_all
  ultimately show ?thesis by (simp add: merge_all_snoc get_merge_results)
next
  case False
  then show ?thesis by simp
qed

lemma tally_values:
  assumes "\<forall>r \<in> set cs. distinct (Object_keys r) \<and> (\<forall>k. 0 \<le> get_or_0 r k)"
    and "(k, v) \<in> set (merge_all (take j cs))"
  shows "0 \<le> v"
proof -
  have "\<forall>r \<in> set (take j cs). distinct (Object_keys r) \<and> (\<forall>k. 0 \<le> get_or_0 r k)"
    using assms(1) by (auto dest: in_set_takeD)
  then have "0 \<le> get_or_0 (merge_all (take j cs)) k" by (rule get_merge_all_nonneg)
  moreover have "get_or_0 (merge_all (take j cs)) k = v"
    using merge_all_distinct assms(2) by (rule distinct_entry_get)
  ultimately show ?thesis by simp
qed

text \<open>
  Claim C7. The tally of a run starts empty and depends on nothing but that run: what a
  run that completes reports is the merge of its own per-source results into the empty
  object. After every number of merges each value of the tally is a non-negative
  integer, and no symbol's count goes down from one merge to the next.
\<close>

theorem tally_invariants:
  "(scrapeAndPrint w accs startTime currentTime = Some (tr, Inr ()) \<longrightarrow>
      (\<exists>cs. list_all2 (harvest_gives w) accs cs
         \<and> filter is_report tr
           = report_lines (merge_all cs) (elapsedMinutes startTime currentTime)))
   \<and> merge_all [] = []
   \<and> (list_all2 (harvest_gives w) accs cs \<longrightarrow>
        (\<forall>j. (\<forall>(k, v) \<in> set (merge_all (take j cs)). 0 \<le> v)
           \<and> (\<forall>k. get_or_0 (merge_all (take j cs)) k
                   \<le> get_or_0 (merge_all (take (Suc j) cs)) k)))"
proof (intro conjI impI allI)
  show "\<exists>cs. list_all2 (harvest_gives w) accs cs
         \<and> filter is_report tr
           = report_lines (merge_all cs) (elapsedMinutes startTime currentTime)"
    if "scrapeAndPrint w accs startTime currentTime = Some (tr, Inr ())"
    using that by (rule scrapeAndPrint_reports)
  show "merge_all [] = []" by (simp add: merge_all_def)
next
  fix j
  assume "list_all2 (harvest_gives w) accs cs"
  then have wf: "\<forall>r \<in> set cs. distinct (Object_keys r) \<and> (\<forall>k. 0 \<le> get_or_0 r k)"
    by (rule harvest_results_wellformed)
  show "\<forall>(k, v) \<in> set (merge_all (take j cs)). 0 \<le> v"
    using tally_values [OF wf] by auto
  show "get_or_0 (merge_all (take j cs)) k \<le> get_or_0 (merge_all (take (Suc j) cs)) k" for k
    using wf by (rule tally_grows)
qed


theorem tally_invariants_witness:
  "scrapeAndPrint (sample_worlds 0) [''Barchart''] 0 60000
     = Some ([Log (ScrapingAccount ''Barchart''), Launch, NewPage, Goto ''Barchart'',
              Log (StartingToScroll ''Barchart''), EvalScrollHeight, AutoScroll,
              WaitFor 3000, EvalScrollHeight, Log (ReachedEnd ''Barchart''),
              WaitForSelector, Content, Close,
              Log (Mentioned ''$GME'' (Some 1) 1),
              Log AllProcessed], Inr ())
   \<and> (\<exists>cs. list_all2 (harvest_gives (sample_worlds 0)) [''Barchart''] cs
         \<and> [Log (Mentioned ''$GME'' (Some 1) 1)]
           = report_lines (merge_all cs) (elapsedMinutes 0 60000))
   \<and> list_all2 (harvest_gives (sample_worlds 0)) [''Barchart'', ''RoyLMattox'']
         [[(''$GME'', 1)], [(''$GME'', 1)]]
   \<and> get_or_0 (merge_all (take 1 [[(''$GME'', 1)], [(''$GME'', 1)]]))
         ''$GME''
       \<le> get_or_0 (merge_all (take (Suc 1)
               [[(''$GME'', 1)], [(''$GME'', 1)]])) ''$GME''
   \<and> (''$GME'', 2) \<in> set (merge_all (take 2 [[(''$GME'', 1)], [(''$GME'', 1)]]))
   \<and> (0 :: int) \<le> 2"
proof -
  let ?T = "[Log (ScrapingAccount ''Barchart''), Launch, NewPage, Goto ''Barchart'',
              Log (StartingToScroll ''Barchart''), EvalScrollHeight, AutoScroll,
              WaitFor 3000, EvalScrollHeight, Log (ReachedEnd ''Barchart''),
              WaitForSelector, Content, Close,
              Log (Mentioned ''$GME'' (Some 1) 1),
              Log AllProcessed]"
  let ?c = "[(''$GME'', 1)] :: counts"
  have run: "scrapeAndPrint (sample_worlds 0) [''Barchart''] 0 60000 = Some (?T, Inr ())"
    by code_simp
  have rep: "filter is_report ?T
             = [Log (Mentioned ''$GME'' (Some 1) 1)]"
    by (simp add: is_report_def)
  have "scrapeTwitter (sample_worlds 0 ''Barchart'') ''Barchart''
        = Some ([Launch, NewPage, Goto ''Barchart'',
              Log (StartingToScroll ''Barchart''), EvalScrollHeight, AutoScroll,
              WaitFor 3000, EvalScrollHeight, Log (ReachedEnd ''Barchart''),
              WaitForSelector, Content, Close], Inr ?c)"
    by code_simp
  then have g1: "harvest_gives (sample_worlds 0) ''Barchart'' ?c"
    by (simp add: harvest_gives_def)
  have "scrapeTwitter (sample_worlds 0 ''RoyLMattox'') ''RoyLMattox''
        = Some ([Launch, NewPage, Goto ''RoyLMattox'',
              Log (StartingToScroll ''RoyLMattox''), EvalScrollHeight, AutoScroll,
              WaitFor 3000, EvalScrollHeight, Log (ReachedEnd ''RoyLMattox''),
              WaitForSelector, Content, Close], Inr ?c)"
    by code_simp
  then have g2: "harvest_gives (sample_worlds 0) ''RoyLMattox'' ?c"
    by (simp add: harvest_gives_def)
  from g1 g2 have g: "list_all2 (harvest_gives (sample_worlds 0))
                        [''Barchart'', ''RoyLMattox''] [?c, ?c]"
    by simp
  note t1 = tally_invariants [where w = "sample_worlds 0" and accs = "[''Barchart'']"
      and startTime = 0 and currentTime = 60000 and tr = ?T, THEN conjunct1, THEN mp, OF run]
  note t2 = tally_invariants [where w = "sample_worlds 0"
      and accs = "[''Barchart'', ''RoyLMattox'']" and cs = "[?c, ?c]",
      THEN conjunct2, THEN conjunct2, THEN mp, OF g, THEN spec, of 1, THEN conjunct2,
      THEN spec, of "''$GME''"]
  from t1 have a: "\<exists>cs. list_all2 (harvest_gives (sample_worlds 0)) [''Barchart''] cs
         \<and> [Log (Mentioned ''$GME'' (Some 1) 1)]
           = report_lines (merge_all cs) (elapsedMinutes 0 60000)"
    by (simp only: rep)
  have mem: "(''$GME'', 2) \<in> set (merge_all (take 2 [?c, ?c]))"
    by code_simp
  note t3 = tally_invariants [where w = "sample_worlds 0"
      and accs = "[''Barchart'', ''RoyLMattox'']" and cs = "[?c, ?c]",
      THEN conjunct2, THEN conjunct2, THEN mp, OF g, THEN spec, of 2, THEN conjunct1,
      THEN bspec, OF mem]
  from t3 have nn: "(0 :: int) \<le> 2" by simp
  from run a g t2 mem nn show ?thesis by (intro conjI)
qed

section \<open>Elapsed minutes and the schedule\<close>

lemma Math_round_minutes: "Math_round (of_int x / 1000 / 60) = Math_round (of_int x / 60000)"
  by simp

lemma Math_round_div: "Math_round (of_int x / 60000) = (x + 30000) div 60000"
proof -
  have "(of_int x / 60000 + 1 / 2 :: rat) = of_int (x + 30000) / of_int 60000"
    by (simp add: field_simps)
  then have "Math_round (of_int x / 60000) = \<lfloor>(of_int (x + 30000) :: rat) / of_int 60000\<rfloor>"
    by (simp only: Math_round_def)
  also have "\<dots> = (x + 30000) div 60000"
    by (rule floor_divide_of_int_eq)
  finally show ?thesis .
qed

lemma reported_minutes_append:
  "reported_minutes (xs @ ys) = reported_minutes xs @ reported_minutes ys"
  by (simp add: reported_minutes_def)

lemma reported_minutes_skip:
  "\<not> is_report e \<Longrightarrow> reported_minutes (e # tr) = reported_minutes tr"
  by (cases e) (simp_all add: is_report_def reported_minutes_def split: log_line.splits)

lemma reported_minutes_no_reports:
  "filter is_report tr = [] \<Longrightarrow> reported_minutes tr = []"
proof (induction tr)
  case Nil
  then show ?case by (simp add: reported_minutes_def)
next
  case (Cons e tr)
  then have "\<not> is_report e" "filter is_report tr = []" by (auto split: if_splits)
  with Cons.IH show ?case by (simp add: reported_minutes_skip)
qed

lemma reported_minutes_report_lines:
  "x \<in> set (reported_minutes (report_lines t m)) \<Longrightarrow> x = m"
  by (auto simp: reported_minutes_def report_lines_def split: if_splits)

lemma not_report_ScrapingAccount: "\<not> is_report (Log (ScrapingAccount a))"
  by (simp add: is_report_def)

lemma harvest_all_no_reports:
  assumes "harvest_all w accs tally tr = Some (tr', res)"
  shows "filter is_report tr' = filter is_report tr"
  using assms
proof (induction accs arbitrary: tally tr)
  case Nil
  then show ?case by simp
next
  case (Cons a accs)
  from Cons.prems obtain ta ra where a: "scrapeTwitter (w a) a = Some (ta, ra)"
    by (cases "scrapeTwitter (w a) a") auto
  then have q: "quiet ta" by (rule scrapeTwitter_quiet)
  show ?case
  proof (cases ra)
    case (Inl e)
    with a Cons.prems have "tr' = tr @ [Log (ScrapingAccount a)] @ ta" by simp
    with q show ?thesis by (simp add: quiet_def not_report_ScrapingAccount)
  next
    case (Inr c)
    with a Cons.prems have "harvest_all w accs (merge_results tally c)
        (tr @ [Log (ScrapingAccount a)] @ ta) = Some (tr', res)" by simp
    from Cons.IH [OF this] q show ?thesis by (simp add: quiet_def not_report_ScrapingAccount)
  qed
qed

lemma scrapeAndPrint_minutes:
  assumes "scrapeAndPrint w accs startTime currentTime = Some (tr, res)"
  shows "set (reported_minutes tr) \<subseteq> {elapsedMinutes startTime currentTime}"
proof -
  from assms obtain th rh where h: "harvest_all w accs [] [] = Some (th, rh)"
    by (cases "harvest_all w accs [] []") (auto simp: scrapeAndPrint_def)
  from harvest_all_no_reports [OF h] have "reported_minutes th = []"
    by (simp add: reported_minutes_no_reports)
  moreover have "reported_minutes [Log AllProcessed] = []"
    by (simp add: reported_minutes_def)
  ultimately show ?thesis
    using assms h
    by (cases rh)
       (auto simp: scrapeAndPrint_def reported_minutes_append
             dest: reported_minutes_report_lines)
qed

lemma timer_callback_minutes:
  assumes "timer_callback w startTime k currentTime = Some (tr, res)"
  shows "set (reported_minutes tr) \<subseteq> {elapsedMinutes startTime currentTime}"
proof -
  from assms obtain tr0 where
    r: "scrapeAndPrint (w k) accounts startTime currentTime = Some (tr0, res)"
    and tr: "tr = Log (ScrapingAgain (interval div 1000 div 60)) # tr0"
    by (auto simp: timer_callback_def split: option.splits)
  have "\<not> is_report (Log (ScrapingAgain (interval div 1000 div 60)))"
    by (simp add: is_report_def)
  with tr scrapeAndPrint_minutes [OF r] show ?thesis
    by (simp add: reported_minutes_skip)
qed

section \<open>The runs of the process\<close>

lemma resolves_not_rejects: "resolves out \<Longrightarrow> \<not> rejects out"
  by (auto simp: resolves_def rejects_def split: option.splits sum.splits)

lemma ends_after_Some:
  "ends = Some e \<Longrightarrow> \<exists>e'. ends_after ends out x = Some e' \<and> e' \<le> e"
  by (simp add: ends_after_def)

lemma ends_after_rejects:
  "rejects out \<Longrightarrow> \<exists>e. ends_after ends out x = Some e \<and> e \<le> x"
  by (cases ends) (simp_all add: ends_after_def)

lemma timer_runs_nth:
  assumes "i < length (timer_runs w s d n k t ends)"
  shows "run_begin (timer_runs w s d n k t ends ! i) = t + int i * interval
       \<and> run_report (timer_runs w s d n k t ends ! i) = t + int i * interval + int (d (k + i))
       \<and> run_outcome (timer_runs w s d n k t ends ! i)
           = timer_callback w s (k + i) (t + int i * interval + int (d (k + i)))"
  using assms
proof (induction n arbitrary: k t ends i)
  case 0
  then show ?case by simp
next
  case (Suc n)
  from Suc.prems have alive: "\<not> process_ended ends t"
    by (auto split: if_splits)
  let ?out = "timer_callback w s k (t + int (d k))"
  let ?tl = "timer_runs w s d n (Suc k) (t + interval) (ends_after ends ?out (t + int (d k)))"
  have unfold: "timer_runs w s d (Suc n) k t ends
                = \<lparr>run_begin = t, run_report = t + int (d k), run_outcome = ?out\<rparr> # ?tl"
    using alive by (simp add: Let_def)
  show ?case
  proof (cases i)
    case 0
    with unfold show ?thesis by simp
  next
    case (Suc j)
    with Suc.prems unfold have "j < length ?tl" by simp
    from Suc.IH [OF this] Suc unfold show ?thesis
      by (simp add: algebra_simps)
  qed
qed

lemma timer_runs_before_end:
  assumes "r \<in> set (timer_runs w s d n k t ends)" and "ends = Some e"
  shows "run_begin r < e"
  using assms
proof (induction n arbitrary: k t ends e)
  case 0
  then show ?case by simp
next
  case (Suc n)
  from Suc.prems have alive: "\<not> process_ended ends t"
    by (auto split: if_splits)
  with Suc.prems(2) have lt: "t < e" by (simp add: process_ended_def)
  let ?out = "timer_callback w s k (t + int (d k))"
  let ?ends = "ends_after ends ?out (t + int (d k))"
  let ?tl = "timer_runs w s d n (Suc k) (t + interval) ?ends"
  from Suc.prems(1) alive
  have "r = \<lparr>run_begin = t, run_report = t + int (d k), run_outcome = ?out\<rparr> \<or> r \<in> set ?tl"
    by (simp add: Let_def)
  then show ?case
  proof
    assume "r = \<lparr>run_begin = t, run_report = t + int (d k), run_outcome = ?out\<rparr>"
    with lt show ?thesis by simp
  next
    assume tl: "r \<in> set ?tl"
    from ends_after_Some [OF Suc.prems(2)] obtain e' where e': "?ends = Some e'" "e' \<le> e"
      by blast
    from Suc.IH [OF tl e'(1)] e'(2) show ?thesis by simp
  qed
qed

lemma timer_runs_rejected:
  assumes "i < j" and "j < length (timer_runs w s d n k t ends)"
    and "rejects (run_outcome (timer_runs w s d n k t ends ! i))"
  shows "run_begin (timer_runs w s d n k t ends ! j)
         < run_report (timer_runs w s d n k t ends ! i)"
  using assms
proof (induction n arbitrary: k t ends i j)
  case 0
  then show ?case by simp
next
  case (Suc n)
  from Suc.prems(2) have alive: "\<not> process_ended ends t"
    by (auto split: if_splits)
  let ?out = "timer_callback w s k (t + int (d k))"
  let ?ends = "ends_after ends ?out (t + int (d k))"
  let ?tl = "timer_runs w s d n (Suc k) (t + interval) ?ends"
  have unfold: "timer_runs w s d (Suc n) k t ends
                = \<lparr>run_begin = t, run_report = t + int (d k), run_outcome = ?out\<rparr> # ?tl"
    using alive by (simp add: Let_def)
  from Suc.prems(1) obtain j' where j: "j = Suc j'" by (cases j) auto
  with Suc.prems(2) unfold have j': "j' < length ?tl" by simp
  show ?case
  proof (cases i)
    case 0
    with Suc.prems(3) unfold have "rejects ?out" by simp
    from ends_after_rejects [OF this] obtain e where e: "?ends = Some e" "e \<le> t + int (d k)"
      by blast
    from j' have "?tl ! j' \<in> set ?tl" by simp
    from timer_runs_before_end [OF this e(1)] e(2) 0 j unfold show ?thesis by simp
  next
    case (Suc i')
    with Suc.prems j unfold have "i' < j'" "rejects (run_outcome (?tl ! i'))" by simp_all
    from Suc.IH [OF this(1) j' this(2)] Suc j unfold show ?thesis by simp
  qed
qed

lemma timer_runs_length:
  assumes "\<forall>k c. \<not> rejects (timer_callback w s k c)"
  shows "length (timer_runs w s d n k t None) = n"
proof (induction n arbitrary: k t)
  case 0
  then show ?case by simp
next
  case (Suc n)
  from assms have "ends_after None (timer_callback w s k (t + int (d k))) (t + int (d k)) = None"
    by (simp add: ends_after_def)
  with Suc show ?case by (simp add: Let_def process_ended_def)
qed

lemma main_first:
  "main w s d n ! 0
   = \<lparr>run_begin = s, run_report = s + int (d 0),
      run_outcome = scrapeAndPrint (w 0) accounts s (s + int (d 0))\<rparr>"
  by (simp add: main_def Let_def)

lemma main_later:
  assumes "Suc i < length (main w s d n)"
  shows "resolves (scrapeAndPrint (w 0) accounts s (s + int (d 0)))
       \<and> i < length (timer_runs w s d n 1 (s + int (d 0) + interval) None)
       \<and> main w s d n ! Suc i = timer_runs w s d n 1 (s + int (d 0) + interval) None ! i"
  using assms by (auto simp: main_def Let_def split: if_splits)

lemma main_minutes:
  assumes "r \<in> set (main w s d n)" and "run_outcome r = Some (tr, res)"
  shows "set (reported_minutes tr) \<subseteq> {elapsedMinutes s (run_report r)}"
proof -
  from assms(1) obtain i where i: "i < length (main w s d n)" "r = main w s d n ! i"
    by (auto simp: in_set_conv_nth)
  show ?thesis
  proof (cases i)
    case 0
    with i assms(2) have "scrapeAndPrint (w 0) accounts s (run_report r) = Some (tr, res)"
      by (simp add: main_first)
    then show ?thesis by (rule scrapeAndPrint_minutes)
  next
    case (Suc j)
    with i main_later [of j w s d n]
    have j: "j < length (timer_runs w s d n 1 (s + int (d 0) + interval) None)"
      and r: "r = timer_runs w s d n 1 (s + int (d 0) + interval) None ! j" by simp_all
    from timer_runs_nth [OF j] r assms(2)
    have "timer_callback w s (1 + j) (run_report r) = Some (tr, res)" by simp
    then show ?thesis by (rule timer_callback_minutes)
  qed
qed

section \<open>The sample processes\<close>

lemma main_length_all_resolve:
  assumes "resolves (scrapeAndPrint (w 0) accounts s (s + int (d 0)))"
    and "\<forall>k c. \<not> rejects (timer_callback w s k c)"
  shows "length (main w s d n) = Suc n"
  using assms by (simp add: main_def Let_def timer_runs_length)

lemma main_nth_later:
  assumes "Suc i < length (main w s d n)"
  shows "run_begin (main w s d n ! Suc i) = s + int (d 0) + interval + int i * interval
       \<and> run_report (main w s d n ! Suc i)
           = s + int (d 0) + interval + int i * interval + int (d (Suc i))
       \<and> run_outcome (main w s d n ! Suc i)
           = timer_callback w s (Suc i)
               (s + int (d 0) + interval + int i * interval + int (d (Suc i)))"
proof -
  from main_later [OF assms]
  have i: "i < length (timer_runs w s d n 1 (s + int (d 0) + interval) None)"
    and eq: "main w s d n ! Suc i = timer_runs w s d n 1 (s + int (d 0) + interval) None ! i"
    by simp_all
  from timer_runs_nth [OF i] eq show ?thesis by simp
qed

lemma harvest_all_uniform:
  assumes "\<forall>a. scrapeTwitter (w a) a = Some (T a, Inr c)"
  shows "harvest_all w accs tally tr
         = Some (tr @ concat (map (\<lambda>a. Log (ScrapingAccount a) # T a) accs),
                 Inr (foldl merge_results tally (map (\<lambda>a. c) accs)))"
  using assms by (induction accs arbitrary: tally tr) simp_all

lemma sample_tickerCounts: "tickerCounts_of [''$GME''] = [(''$GME'', 1)]"
  by code_simp

lemma sample_scrapeTwitter:
  "scrapeTwitter (sample_worlds k a) a
   = Some ([Launch, NewPage, Goto a, Log (StartingToScroll a), EvalScrollHeight,
            AutoScroll, WaitFor 3000, EvalScrollHeight, Log (ReachedEnd a),
            WaitForSelector, Content, Close], Inr [(''$GME'', 1)])"
proof -
  have "scroll_detector (simulated [800, 800] [''$GME'']) a [Launch, NewPage, Goto a]
        = Some ([Launch, NewPage, Goto a, Log (StartingToScroll a), EvalScrollHeight,
                 AutoScroll, WaitFor 3000, EvalScrollHeight, Log (ReachedEnd a)], Inr ())"
    unfolding scroll_detector_def
    by (simp add: simulated_def) (subst scroll_loop.simps, simp add: scrollPause_def)
  then show ?thesis
    by (simp add: scrapeTwitter_def sample_worlds_def simulated_def sample_tickerCounts)
qed

lemma sample_tally:
  "foldl merge_results [] (map (\<lambda>a. [(''$GME'', 1)]) accounts) = [(''$GME'', 10)]"
  by code_simp

lemma sample_scrapeAndPrint:
  "\<exists>tr. scrapeAndPrint (sample_worlds k) accounts s c = Some (tr, Inr ())
        \<and> reported_minutes tr = [elapsedMinutes s c]"
proof -
  let ?T = "\<lambda>a. [Launch, NewPage, Goto a, Log (StartingToScroll a), EvalScrollHeight,
            AutoScroll, WaitFor 3000, EvalScrollHeight, Log (ReachedEnd a),
            WaitForSelector, Content, Close]"
  let ?th = "[] @ concat (map (\<lambda>a. Log (ScrapingAccount a) # ?T a) accounts)"
  have "\<forall>a. scrapeTwitter (sample_worlds k a) a = Some (?T a, Inr [(''$GME'', 1)])"
    by (simp add: sample_scrapeTwitter)
  from harvest_all_uniform [OF this, of accounts "[]" "[]"]
  have h: "harvest_all (sample_worlds k) accounts [] [] = Some (?th, Inr [(''$GME'', 10)])"
    by (simp only: sample_tally)
  from harvest_all_no_reports [OF h] have "reported_minutes ?th = []"
    by (simp add: reported_minutes_no_reports)
  moreover have "reported_minutes (report_lines [(''$GME'', 10)] (elapsedMinutes s c))
                 = [elapsedMinutes s c]"
    by (simp add: reported_minutes_def report_lines_def Object_keys_def)
  moreover have "reported_minutes [Log AllProcessed] = []"
    by (simp add: reported_minutes_def)
  ultimately have "reported_minutes
      (?th @ report_lines [(''$GME'', 10)] (elapsedMinutes s c) @ [Log AllProcessed])
      = [elapsedMinutes s c]"
    by (simp only: reported_minutes_append append_Nil append_Nil2)
  moreover have "scrapeAndPrint (sample_worlds k) accounts s c
      = Some (?th @ report_lines [(''$GME'', 10)] (elapsedMinutes s c) @ [Log AllProcessed],
              Inr ())"
    using h by (simp only: scrapeAndPrint_def option.case prod.case sum.case)
  ultimately show ?thesis by blast
qed

lemma sample_resolves: "resolves (scrapeAndPrint (sample_worlds k) accounts s c)"
  using sample_scrapeAndPrint [of k s c] by (auto simp: resolves_def)

lemma sample_callback:
  "\<exists>tr. timer_callback sample_worlds s k c = Some (tr, Inr ())
        \<and> reported_minutes tr = [elapsedMinutes s c]"
proof -
  from sample_scrapeAndPrint [of k s c] obtain tr0 where
    r: "scrapeAndPrint (sample_worlds k) accounts s c = Some (tr0, Inr ())"
    and m: "reported_minutes tr0 = [elapsedMinutes s c]" by blast
  have "\<not> is_report (Log (ScrapingAgain (interval div 1000 div 60)))"
    by (simp add: is_report_def)
  with m have "reported_minutes (Log (ScrapingAgain (interval div 1000 div 60)) # tr0)
               = [elapsedMinutes s c]"
    by (simp add: reported_minutes_skip)
  with r show ?thesis by (simp add: timer_callback_def)
qed

lemma sample_callback_resolves: "resolves (timer_callback sample_worlds s k c)"
  using sample_callback [of s k c] by (auto simp: resolves_def)

lemma sample_process:
  "length (main sample_worlds 0 minute_runs n) = Suc n"
  by (rule main_length_all_resolve)
     (simp_all add: sample_resolves sample_callback_resolves resolves_not_rejects)

lemma sample_times:
  "run_report (main sample_worlds 0 minute_runs n ! 0) = 60000"
  "run_begin (main sample_worlds 0 minute_runs (Suc n) ! 1) = 960000"
  "run_report (main sample_worlds 0 minute_runs (Suc n) ! 1) = 1020000"
  "run_begin (main sample_worlds 0 minute_runs (Suc (Suc n)) ! 2) = 1860000"
proof -
  show "run_report (main sample_worlds 0 minute_runs n ! 0) = 60000"
    by (simp add: main_first minute_runs_def)
  have "Suc 0 < length (main sample_worlds 0 minute_runs (Suc n))"
    by (simp add: sample_process)
  from main_nth_later [OF this]
  show "run_begin (main sample_worlds 0 minute_runs (Suc n) ! 1) = 960000"
    "run_report (main sample_worlds 0 minute_runs (Suc n) ! 1) = 1020000"
    by (simp_all add: minute_runs_def interval_def)
  have "Suc 1 < length (main sample_worlds 0 minute_runs (Suc (Suc n)))"
    by (simp add: sample_process)
  from main_nth_later [OF this]
  show "run_begin (main sample_worlds 0 minute_runs (Suc (Suc n)) ! 2) = 1860000"
    by (simp add: minute_runs_def interval_def numeral_2_eq_2)
qed

lemma sample_second_run:
  "map_option (reported_minutes \<circ> fst) (run_outcome (main sample_worlds 0 minute_runs 1 ! 1))
   = Some [17]"
proof -
  have "Suc 0 < length (main sample_worlds 0 minute_runs 1)"
    by (simp add: sample_process)
  from main_nth_later [OF this]
  have "run_outcome (main sample_worlds 0 minute_runs 1 ! 1)
        = timer_callback sample_worlds 0 1 1020000"
    by (simp add: minute_runs_def interval_def)
  moreover from sample_callback [of 0 1 1020000] obtain tr where
    "timer_callback sample_worlds 0 1 1020000 = Some (tr, Inr ())"
    "reported_minutes tr = [elapsedMinutes 0 1020000]" by blast
  moreover have "elapsedMinutes 0 1020000 = 17"
    by (simp only: elapsedMinutes_def Math_round_minutes Math_round_div)
  ultimately show ?thesis by simp
qed

text \<open>
  Claim C2, as the code has it. \<open>startTime\<close> is read once, in \<open>main\<close>, before the first
  run, and no run resets it: the minutes in the report lines of every run of the process
  are \<open>round((report time of that run - startTime) / 60000)\<close>, counted from the start of
  the process, as they are for every call of \<open>scrapeAndPrint\<close> whenever it reports. For
  the first run that is the run's own start.
\<close>

theorem elapsed_since_process_start:
  "(\<forall>r \<in> set (main w startTime d n). \<forall>tr res.
      run_outcome r = Some (tr, res) \<longrightarrow>
      (\<forall>m \<in> set (reported_minutes tr).
         m = Math_round (of_int (run_report r - startTime) / 60000)))
   \<and> run_begin (main w startTime d n ! 0) = startTime
   \<and> (\<forall>w' accs currentTime tr res.
        scrapeAndPrint w' accs startTime currentTime = Some (tr, res) \<longrightarrow>
        (\<forall>m \<in> set (reported_minutes tr).
           m = Math_round (of_int (currentTime - startTime) / 60000)))
   \<and> (\<forall>currentTime.
        elapsedMinutes startTime currentTime = (currentTime - startTime + 30000) div 60000)"
proof (intro conjI allI impI ballI)
  fix r tr res m
  assume "r \<in> set (main w startTime d n)" "run_outcome r = Some (tr, res)"
    and "m \<in> set (reported_minutes tr)"
  with main_minutes have "m = elapsedMinutes startTime (run_report r)" by blast
  then show "m = Math_round (of_int (run_report r - startTime) / 60000)"
    by (simp only: elapsedMinutes_def Math_round_minutes)
next
  show "run_begin (main w startTime d n ! 0) = startTime" by (simp add: main_first)
next
  fix w' accs currentTime tr res m
  assume "scrapeAndPrint w' accs startTime currentTime = Some (tr, res)"
    and "m \<in> set (reported_minutes tr)"
  with scrapeAndPrint_minutes have "m = elapsedMinutes startTime currentTime" by blast
  then show "m = Math_round (of_int (currentTime - startTime) / 60000)"
    by (simp only: elapsedMinutes_def Math_round_minutes)
next
  fix currentTime
  show "elapsedMinutes startTime currentTime = (currentTime - startTime + 30000) div 60000"
    by (simp only: elapsedMinutes_def Math_round_minutes Math_round_div)
qed

theorem elapsed_since_process_start_witness:
  "map_option (reported_minutes \<circ> fst) (run_outcome (main sample_worlds 0 minute_runs 1 ! 1))
     = Some [17]
   \<and> run_report (main sample_worlds 0 minute_runs 1 ! 1) = 1020000
   \<and> 17 = Math_round (of_int (run_report (main sample_worlds 0 minute_runs 1 ! 1) - 0) / 60000)"
proof -
  let ?r = "main sample_worlds 0 minute_runs 1 ! 1"
  note e = sample_second_run
  then obtain tr res where o: "run_outcome ?r = Some (tr, res)"
    and m: "reported_minutes tr = [17]"
    by (cases "run_outcome ?r") auto
  from m have mem: "17 \<in> set (reported_minutes tr)" by simp
  have "1 < length (main sample_worlds 0 minute_runs 1)" by (simp add: sample_process)
  then have r: "?r \<in> set (main sample_worlds 0 minute_runs 1)" by (rule nth_mem)
  have t: "run_report ?r = 1020000" using sample_times(3) [of 0] by simp
  from elapsed_since_process_start [of sample_worlds 0 minute_runs 1,
      THEN conjunct1, THEN bspec, OF r, THEN spec, THEN spec, THEN mp, OF o, THEN bspec, OF mem]
  have "17 = Math_round (of_int (run_report ?r - 0) / 60000)" .
  with e t show ?thesis by (intro conjI)
qed

text \<open>
  The claim as the specification states it fails for the runs after the first: with runs
  of one minute each, the second run begins 960000 ms after the start of the process and
  reports at 1020000 ms; one minute has passed since its own start, and it reports 17.
\<close>

theorem elapsed_per_run_counterexample:
  "length (main sample_worlds 0 minute_runs 1) = 2
   \<and> map_option (reported_minutes \<circ> fst) (run_outcome (main sample_worlds 0 minute_runs 1 ! 1))
       = Some [17]
   \<and> run_begin (main sample_worlds 0 minute_runs 1 ! 1) = 960000
   \<and> run_report (main sample_worlds 0 minute_runs 1 ! 1) = 1020000
   \<and> Math_round (of_int (run_report (main sample_worlds 0 minute_runs 1 ! 1)
                          - run_begin (main sample_worlds 0 minute_runs 1 ! 1)) / 60000) = 1"
proof -
  let ?r = "main sample_worlds 0 minute_runs 1 ! 1"
  have l: "length (main sample_worlds 0 minute_runs 1) = 2" by (simp add: sample_process)
  have a: "run_begin ?r = 960000" and b: "run_report ?r = 1020000"
    using sample_times(2,3) [of 0] by simp_all
  have "Math_round (of_int (run_report ?r - run_begin ?r) / 60000)
        = (run_report ?r - run_begin ?r + 30000) div 60000"
    by (rule Math_round_div)
  also have "\<dots> = 1" unfolding a b by simp
  finally have c: "Math_round (of_int (run_report ?r - run_begin ?r) / 60000) = 1" .
  from l sample_second_run a b c show ?thesis by (intro conjI)
qed

section \<open>When the runs begin\<close>

lemma sample_world_rejects:
  "\<exists>tr. scrapeAndPrint sample_world accounts s c = Some (tr, Inl NavigationFailure)"
proof -
  let ?post = "[''ChartingProdigy'', ''allstarcharts'', ''yuriymatso'', ''TriggerTrades'',
      ''AdamMancini4'', ''CordovaTrades'', ''Barchart'', ''RoyLMattox'']"
  have acc: "accounts = [''Mr_Derivatives''] @ ''warrior_0719'' # ?post"
    by (simp add: accounts_def)
  have "scrapeTwitter (sample_world ''Mr_Derivatives'') ''Mr_Derivatives''
        = Some ([Launch, NewPage, Goto ''Mr_Derivatives'',
                 Log (StartingToScroll ''Mr_Derivatives''),
                 EvalScrollHeight, AutoScroll, WaitFor 3000, EvalScrollHeight,
                 Log (Scrolling 1200), AutoScroll, WaitFor 3000, EvalScrollHeight,
                 Log (ReachedEnd ''Mr_Derivatives''), WaitForSelector, Content, Close],
                Inr [(''$AAPL'', 2), (''$TSLA'', 1)])"
    by code_simp
  then have h1: "\<forall>b \<in> set [''Mr_Derivatives''].
                   \<exists>t c. scrapeTwitter (sample_world b) b = Some (t, Inr c)"
    by simp
  have h2: "scrapeTwitter (sample_world ''warrior_0719'') ''warrior_0719''
        = Some ([Launch, NewPage, Goto ''warrior_0719''], Inl NavigationFailure)"
    by code_simp
  from harvest_all_aborts [OF h1 h2, of ?post "[]" "[]"]
  obtain ext where "harvest_all sample_world accounts [] [] = Some (ext, Inl NavigationFailure)"
    unfolding acc by auto
  then have "scrapeAndPrint sample_world accounts s c = Some (ext, Inl NavigationFailure)"
    by (simp add: scrapeAndPrint_def)
  then show ?thesis by (rule exI)
qed

lemma failing_first: "resolves (scrapeAndPrint (failing_worlds 0) accounts s c)"
  using sample_resolves [of 0 s c] by (simp add: failing_worlds_def)

lemma failing_second: "rejects (timer_callback failing_worlds s (Suc 0) c)"
  using sample_world_rejects [of s c]
  by (auto simp: timer_callback_def failing_worlds_def rejects_def)

lemma failing_later: "\<not> rejects (timer_callback failing_worlds s (Suc (Suc k)) c)"
proof -
  have "timer_callback failing_worlds s (Suc (Suc k)) c
        = timer_callback sample_worlds s (Suc (Suc k)) c"
    by (simp add: timer_callback_def failing_worlds_def)
  with sample_callback_resolves [of s "Suc (Suc k)" c] show ?thesis
    by (simp add: resolves_not_rejects)
qed

lemma failing_process:
  "length (main failing_worlds 0 long_runs 3) = 3"
  "rejects (run_outcome (main failing_worlds 0 long_runs 3 ! 1))"
  "run_report (main failing_worlds 0 long_runs 3 ! 1) = 1960000"
  "run_begin (main failing_worlds 0 long_runs 3 ! 2) = 1860000"
  by (simp_all add: main_def Let_def numeral_3_eq_3 numeral_2_eq_2 failing_first
        failing_second failing_later process_ended_def ends_after_def long_runs_def
        interval_def)

text \<open>
  Claim C3, as the code has it. The timer exists only when the first run has resolved,
  and it is armed when that run is over: the second run begins one interval after the
  first run's report. From then on the timer is due one interval after it was last due,
  whether the run it began has finished or not: every later run begins one interval
  after the run before it began. A run begins only while no earlier run has rejected,
  which ends the process; while no run rejects, every run does begin.
\<close>

theorem timer_fixed_rate_after_first_run:
  "(1 < length (main w s d n) \<longrightarrow>
      resolves (run_outcome (main w s d n ! 0))
      \<and> run_begin (main w s d n ! 1) = run_report (main w s d n ! 0) + interval)
   \<and> (\<forall>i. 1 \<le> i \<and> Suc i < length (main w s d n) \<longrightarrow>
        run_begin (main w s d n ! Suc i) = run_begin (main w s d n ! i) + interval
        \<and> run_begin (main w s d n ! Suc i)
            = run_report (main w s d n ! i) + interval - int (d i))
   \<and> (\<forall>i j. i < j \<and> j < length (main w s d n) \<and> rejects (run_outcome (main w s d n ! i)) \<longrightarrow>
        run_begin (main w s d n ! j) < run_report (main w s d n ! i))
   \<and> (resolves (run_outcome (main w s d n ! 0))
       \<and> (\<forall>k c. \<not> rejects (timer_callback w s k c)) \<longrightarrow>
        length (main w s d n) = Suc n)
   \<and> (\<not> resolves (run_outcome (main w s d n ! 0)) \<longrightarrow> length (main w s d n) = 1)"
proof (intro conjI allI impI)
  assume l: "1 < length (main w s d n)"
  then have l': "Suc 0 < length (main w s d n)" by simp
  from main_later [OF l'] show "resolves (run_outcome (main w s d n ! 0))"
    by (simp add: main_first)
  from main_nth_later [OF l']
  show "run_begin (main w s d n ! 1) = run_report (main w s d n ! 0) + interval"
    by (simp add: main_first)
next
  fix i
  assume a: "1 \<le> i \<and> Suc i < length (main w s d n)"
  then obtain j where j: "i = Suc j" by (cases i) auto
  with a have l1: "Suc j < length (main w s d n)" and l2: "Suc (Suc j) < length (main w s d n)"
    by simp_all
  from main_nth_later [OF l1] main_nth_later [OF l2] j
  show "run_begin (main w s d n ! Suc i) = run_begin (main w s d n ! i) + interval"
    and "run_begin (main w s d n ! Suc i)
            = run_report (main w s d n ! i) + interval - int (d i)"
    by (simp_all add: algebra_simps)
next
  fix i j
  assume a: "i < j \<and> j < length (main w s d n) \<and> rejects (run_outcome (main w s d n ! i))"
  then obtain j' where j: "j = Suc j'" by (cases j) auto
  with a have lj: "Suc j' < length (main w s d n)" by simp
  let ?T = "timer_runs w s d n 1 (s + int (d 0) + interval) None"
  from main_later [OF lj] have r0: "resolves (scrapeAndPrint (w 0) accounts s (s + int (d 0)))"
    and j': "j' < length ?T" and ej: "main w s d n ! Suc j' = ?T ! j'" by simp_all
  from r0 have "\<not> rejects (run_outcome (main w s d n ! 0))"
    by (simp add: main_first resolves_not_rejects)
  with a obtain i' where i: "i = Suc i'" by (cases i) auto
  with a j have lt: "i' < j'" by simp
  with lj i have "Suc i' < length (main w s d n)" by simp
  from main_later [OF this] have ei: "main w s d n ! Suc i' = ?T ! i'" by simp
  with a i have "rejects (run_outcome (?T ! i'))" by simp
  from timer_runs_rejected [OF lt j' this] ei ej i j
  show "run_begin (main w s d n ! j) < run_report (main w s d n ! i)" by simp
next
  assume "resolves (run_outcome (main w s d n ! 0))
       \<and> (\<forall>k c. \<not> rejects (timer_callback w s k c))"
  then show "length (main w s d n) = Suc n"
    by (intro main_length_all_resolve) (simp_all add: main_first)
next
  assume "\<not> resolves (run_outcome (main w s d n ! 0))"
  then have "\<not> resolves (scrapeAndPrint (w 0) accounts s (s + int (d 0)))"
    by (simp add: main_first)
  then show "length (main w s d n) = 1" by (simp add: main_def Let_def)
qed

theorem timer_fixed_rate_after_first_run_witness:
  "length (main sample_worlds 0 minute_runs 2) = 3
   \<and> run_begin (main sample_worlds 0 minute_runs 2 ! 1)
       = run_report (main sample_worlds 0 minute_runs 2 ! 0) + interval
   \<and> run_begin (main sample_worlds 0 minute_runs 2 ! Suc 1)
       = run_begin (main sample_worlds 0 minute_runs 2 ! 1) + interval
   \<and> rejects (run_outcome (main failing_worlds 0 long_runs 3 ! 1))
   \<and> length (main failing_worlds 0 long_runs 3) = 3
   \<and> run_begin (main failing_worlds 0 long_runs 3 ! 2)
       < run_report (main failing_worlds 0 long_runs 3 ! 1)
   \<and> length (main unreachable_worlds 0 minute_runs 2) = 1"
proof -
  let ?M = "main sample_worlds 0 minute_runs 2"
  let ?F = "main failing_worlds 0 long_runs 3"
  note t = timer_fixed_rate_after_first_run [of sample_worlds 0 minute_runs 2]
  note f = timer_fixed_rate_after_first_run [of failing_worlds 0 long_runs 3]
  note u = timer_fixed_rate_after_first_run [of unreachable_worlds 0 minute_runs 2]
  have r0: "resolves (run_outcome (?M ! 0))
            \<and> (\<forall>k c. \<not> rejects (timer_callback sample_worlds 0 k c))"
    by (simp add: main_first sample_resolves sample_callback_resolves resolves_not_rejects)
  from t [THEN conjunct2, THEN conjunct2, THEN conjunct2, THEN conjunct1, THEN mp, OF r0]
  have l: "length ?M = 3" by simp
  then have l1: "1 < length ?M" by simp
  from t [THEN conjunct1, THEN mp, OF l1]
  have c1: "run_begin (?M ! 1) = run_report (?M ! 0) + interval" by (rule conjunct2)
  from l have l2: "1 \<le> (1::nat) \<and> Suc 1 < length ?M" by simp
  from t [THEN conjunct2, THEN conjunct1, THEN spec, THEN mp, OF l2]
  have c2: "run_begin (?M ! Suc 1) = run_begin (?M ! 1) + interval" by (rule conjunct1)
  have c4: "rejects (run_outcome (?F ! 1))" by (rule failing_process)
  have lf: "length ?F = 3" by (rule failing_process)
  from c4 lf have h3: "(1::nat) < 2 \<and> 2 < length ?F \<and> rejects (run_outcome (?F ! 1))"
    by simp
  from f [THEN conjunct2, THEN conjunct2, THEN conjunct1, THEN spec, THEN spec, THEN mp, OF h3]
  have c3: "run_begin (?F ! 2) < run_report (?F ! 1)" .
  have "\<not> resolves (run_outcome (main unreachable_worlds 0 minute_runs 2 ! 0))"
    using sample_world_rejects [of 0 "0 + int (minute_runs 0)"]
    by (auto simp: main_first resolves_def unreachable_worlds_def)
  from u [THEN conjunct2, THEN conjunct2, THEN conjunct2, THEN conjunct2, THEN mp, OF this]
  have c5: "length (main unreachable_worlds 0 minute_runs 2) = 1" .
  from l c1 c2 c4 lf c3 c5 show ?thesis by (intro conjI)
qed

text \<open>
  The claim as the specification states it fails from the third run on: with runs of one
  minute each, the third run begins 840000 ms after the report of the second, not
  900000 ms.
\<close>

theorem timer_rearm_counterexample:
  "length (main sample_worlds 0 minute_runs 2) = 3
   \<and> run_report (main sample_worlds 0 minute_runs 2 ! 1) = 1020000
   \<and> run_begin (main sample_worlds 0 minute_runs 2 ! 2) = 1860000
   \<and> interval = 900000
   \<and> run_begin (main sample_worlds 0 minute_runs 2 ! 2)
       \<noteq> run_report (main sample_worlds 0 minute_runs 2 ! 1) + interval"
proof -
  let ?M = "main sample_worlds 0 minute_runs 2"
  have l: "length ?M = 3" by (simp add: sample_process)
  have b: "run_report (?M ! 1) = 1020000"
    using sample_times(3) [of 1] by (simp add: numeral_2_eq_2)
  have a: "run_begin (?M ! 2) = 1860000"
    using sample_times(4) [of 0] by (simp add: numeral_2_eq_2)
  have i: "interval = 900000" by (simp add: interval_def)
  have "run_begin (?M ! 2) \<noteq> run_report (?M ! 1) + interval"
    unfolding a b i by simp
  with l b a i show ?thesis by (intro conjI)
qed

end
